theory Spec2Isabelle
  imports Main "HOL-Library.Word" "HOL-Library.Signed_Division"
begin

unbundle bit_operations_syntax

section \<open>The staging buffer (RuntimeLogger::StagingBuffer)\<close>

text \<open>
  A staging buffer is a byte ring shared by one producer thread and the compression
  thread. Positions are \<^verbatim>\<open>char *\<close> values, that is 64-bit addresses; differences of two
  positions are stored in \<^verbatim>\<open>uint64_t\<close> variables (\<open>minFreeSpace\<close>, \<open>*bytesAvailable\<close>),
  so address arithmetic is arithmetic on \<open>64 word\<close>, and the comparisons of the source are
  the unsigned comparisons of words. The null pointer is the address \<open>0\<close>.

  The record keeps the members that \<^verbatim>\<open>reserveSpaceInternal\<close> and \<^verbatim>\<open>peek\<close> read or write,
  and \<open>numAllocations\<close> and \<open>shouldDeallocate\<close> of the operations of the header.
  \<open>storage\<close> is the address of the first byte of the array \<^verbatim>\<open>storage[]\<close>.
  \<^verbatim>\<open>NanoLogConfig::STAGING_BUFFER_SIZE\<close> is declared in Config.h; every function that
  uses it takes it as its first argument.
\<close>

type_synonym ptr = "64 word"

record StagingBuffer =
  storage :: ptr
  producerPos :: ptr
  consumerPos :: ptr
  endOfRecordedSpace :: ptr
  minFreeSpace :: "64 word"
  cyclesProducerBlocked :: "64 word"
  numTimesProducerBlocked :: "32 word"
  numAllocations :: "64 word"
  shouldDeallocate :: bool

subsection \<open>peek\<close>

text \<open>
  \<^verbatim>\<open>char *peek(uint64_t *bytesAvailable)\<close>. The result is the returned pointer, the value
  left in \<^verbatim>\<open>*bytesAvailable\<close> and the buffer (peek may roll \<open>consumerPos\<close> over).
\<close>

definition peek :: "StagingBuffer \<Rightarrow> ptr \<times> 64 word \<times> StagingBuffer" where
  "peek sb =
     (let cachedProducerPos = producerPos sb
      in if cachedProducerPos < consumerPos sb then
           (let bytesAvailable = endOfRecordedSpace sb - consumerPos sb
            in if bytesAvailable > 0 then (consumerPos sb, bytesAvailable, sb)
               else
                 (let sb' = sb\<lparr>consumerPos := storage sb\<rparr>
                  in (consumerPos sb', cachedProducerPos - consumerPos sb', sb')))
         else (consumerPos sb, cachedProducerPos - consumerPos sb, sb))"

text \<open>
  The algorithm of peek in the words of the specification: one read of \<open>producerPos\<close>;
  when it is strictly below \<open>consumerPos\<close> and \<open>endOfRecordedSpace - consumerPos\<close> is
  positive, that difference is reported at \<open>consumerPos\<close>; when it is below and the
  difference is not positive, \<open>consumerPos\<close> is rolled over to \<open>storage\<close>; in all
  remaining cases the cached \<open>producerPos\<close> minus \<open>consumerPos\<close> is reported at
  \<open>consumerPos\<close>.
\<close>

definition peek_spec :: "StagingBuffer \<Rightarrow> ptr \<times> 64 word \<times> StagingBuffer" where
  "peek_spec sb =
     (if producerPos sb < consumerPos sb \<and> 0 < endOfRecordedSpace sb - consumerPos sb
      then (consumerPos sb, endOfRecordedSpace sb - consumerPos sb, sb)
      else
        (let rolled = (if producerPos sb < consumerPos sb
                       then sb\<lparr>consumerPos := storage sb\<rparr> else sb)
         in (consumerPos rolled, producerPos sb - consumerPos rolled, rolled)))"

subsection \<open>reserveSpaceInternal\<close>

text \<open>
  One pass through the body of \<^verbatim>\<open>while (minFreeSpace <= nbytes)\<close> ends in one of three
  ways: the \<^verbatim>\<open>break\<close>, the \<^verbatim>\<open>return nullptr\<close> of the non-blocking mode, or the end of the
  body, after which the loop condition is tested again.
\<close>

datatype loop_exit = LoopBreak | LoopNext | ReturnNullptr

text \<open>The last statement of the body: \<^verbatim>\<open>if (!blocking && minFreeSpace <= nbytes) return nullptr;\<close>\<close>

definition endOfIteration :: "64 word \<Rightarrow> bool \<Rightarrow> StagingBuffer \<Rightarrow> loop_exit \<times> StagingBuffer" where
  "endOfIteration nbytes blocking sb =
     (if \<not> blocking \<and> minFreeSpace sb \<le> nbytes then (ReturnNullptr, sb) else (LoopNext, sb))"

text \<open>
  The loop body (BENCHMARK_DISCARD_ENTRIES_AT_STAGINGBUFFER is not defined). The shared
  variable \<open>consumerPos\<close> is read once, into \<open>cachedConsumerPos\<close>.
\<close>

definition reserveLoopBody ::
  "64 word \<Rightarrow> 64 word \<Rightarrow> bool \<Rightarrow> StagingBuffer \<Rightarrow> loop_exit \<times> StagingBuffer" where
  "reserveLoopBody STAGING_BUFFER_SIZE nbytes blocking sb =
     (let endOfBuffer = storage sb + STAGING_BUFFER_SIZE;
          cachedConsumerPos = consumerPos sb
      in if cachedConsumerPos \<le> producerPos sb then
           (let sb1 = sb\<lparr>minFreeSpace := endOfBuffer - producerPos sb\<rparr>
            in if minFreeSpace sb1 > nbytes then (LoopBreak, sb1)
               else
                 (let sb2 = sb1\<lparr>endOfRecordedSpace := producerPos sb1\<rparr>;
                      sb3 = (if cachedConsumerPos \<noteq> storage sb2
                             then sb2\<lparr>producerPos := storage sb2,
                                      minFreeSpace := cachedConsumerPos - storage sb2\<rparr>
                             else sb2)
                  in endOfIteration nbytes blocking sb3))
         else endOfIteration nbytes blocking
                (sb\<lparr>minFreeSpace := cachedConsumerPos - producerPos sb\<rparr>))"

text \<open>
  The loop. The consumer runs in another thread; here it does not move while the
  producer is inside the call, so that a producer that spins forever is the value \<open>None\<close>.
  The flag of the result is \<open>False\<close> for the \<^verbatim>\<open>return nullptr\<close> and \<open>True\<close> when the
  loop was left at its condition or by the \<^verbatim>\<open>break\<close>.
\<close>

partial_function (option) reserveLoop ::
  "64 word \<Rightarrow> 64 word \<Rightarrow> bool \<Rightarrow> StagingBuffer \<Rightarrow> (bool \<times> StagingBuffer) option" where
  "reserveLoop STAGING_BUFFER_SIZE nbytes blocking sb =
     (if minFreeSpace sb \<le> nbytes then
        (case reserveLoopBody STAGING_BUFFER_SIZE nbytes blocking sb of
           (LoopBreak, sb') \<Rightarrow> Some (True, sb')
         | (ReturnNullptr, sb') \<Rightarrow> Some (False, sb')
         | (LoopNext, sb') \<Rightarrow> reserveLoop STAGING_BUFFER_SIZE nbytes blocking sb')
      else Some (True, sb))"

declare reserveLoop.simps [code]

text \<open>
  \<^verbatim>\<open>char *reserveSpaceInternal(size_t nbytes, bool blocking)\<close>. \<open>start\<close> and \<open>stop\<close> are
  the two readings of \<^verbatim>\<open>PerfUtils::Cycles::rdtsc()\<close>, before the loop and after it
  (RECORD_PRODUCER_STATS is not defined). The result is the returned pointer and the
  buffer, or \<open>None\<close> when the call does not return.
\<close>

definition reserveSpaceInternal ::
  "64 word \<Rightarrow> 64 word \<Rightarrow> 64 word \<Rightarrow> 64 word \<Rightarrow> bool \<Rightarrow> StagingBuffer
     \<Rightarrow> (ptr \<times> StagingBuffer) option" where
  "reserveSpaceInternal STAGING_BUFFER_SIZE start stop nbytes blocking sb =
     (case reserveLoop STAGING_BUFFER_SIZE nbytes blocking sb of
        None \<Rightarrow> None
      | Some (False, sb') \<Rightarrow> Some (0, sb')
      | Some (True, sb') \<Rightarrow>
          (let cyclesBlocked = stop - start;
               sb1 = sb'\<lparr>cyclesProducerBlocked := cyclesProducerBlocked sb' + cyclesBlocked\<rparr>;
               sb2 = sb1\<lparr>numTimesProducerBlocked := numTimesProducerBlocked sb1 + 1\<rparr>
           in Some (producerPos sb2, sb2)))"

subsection \<open>commit and consume\<close>

text \<open>
  Modelled from the spec: the producer's commit (\<^verbatim>\<open>finishReservation\<close>) is defined in
  RuntimeLogger.h, which is not among the sources. The specification says of it:
  "Advance \<open>producerPos\<close> by \<open>nbytes\<close> using a release store so the consumer observes
  fully-written bytes. Increment \<open>numAllocations\<close>. Decrement local \<open>minFreeSpace\<close>."
\<close>

definition commit :: "64 word \<Rightarrow> StagingBuffer \<Rightarrow> StagingBuffer" where
  "commit nbytes sb =
     sb\<lparr>producerPos := producerPos sb + nbytes,
        numAllocations := numAllocations sb + 1,
        minFreeSpace := minFreeSpace sb - nbytes\<rparr>"

text \<open>
  Modelled from the spec: the consumer's \<^verbatim>\<open>consume\<close> is defined in RuntimeLogger.h as
  well. The specification says of it: "Advance \<open>consumerPos\<close> by \<open>nbytes\<close>."
\<close>

definition consume :: "64 word \<Rightarrow> StagingBuffer \<Rightarrow> StagingBuffer" where
  "consume nbytes sb = sb\<lparr>consumerPos := consumerPos sb + nbytes\<rparr>"

subsection \<open>Well-formed rings and their runs\<close>

text \<open>
  The positions of a well-formed ring, read as unsigned numbers: the array does not wrap
  around the address space, \<open>producerPos\<close> lies inside the array, \<open>consumerPos\<close> is not
  below it, and the producer's cached \<open>minFreeSpace\<close> does not exceed the free bytes in
  front of \<open>producerPos\<close>: up to the end of the array when the consumer is not ahead,
  and up to \<open>consumerPos\<close> when it is; in that case \<open>consumerPos\<close> is not beyond
  \<open>endOfRecordedSpace\<close>, which lies inside the array.
\<close>

definition ring_inv :: "64 word \<Rightarrow> StagingBuffer \<Rightarrow> bool" where
  "ring_inv sz sb =
     (let S = unat (storage sb); P = unat (producerPos sb); C = unat (consumerPos sb);
          E = unat (endOfRecordedSpace sb); M = unat (minFreeSpace sb); Z = unat sz
      in S + Z < 2 ^ 64 \<and> S \<le> P \<and> P < S + Z \<and> S \<le> C \<and>
         (if C \<le> P then P + M \<le> S + Z else P + M \<le> C \<and> C \<le> E \<and> E < S + Z))"

text \<open>
  The number of bytes between the two positions in ring order: what the consumer has
  still to read.
\<close>

definition unread :: "StagingBuffer \<Rightarrow> nat" where
  "unread sb =
     (let S = unat (storage sb); P = unat (producerPos sb); C = unat (consumerPos sb);
          E = unat (endOfRecordedSpace sb)
      in if C \<le> P then P - C else (E - C) + (P - S))"


text \<open>
  A run of one staging buffer: the buffer together with the number of bytes committed
  and the number of bytes consumed so far. The buffer is empty when all committed bytes
  have been consumed. A run starts from a buffer with both positions at \<open>storage\<close>;
  its steps are those of the two threads, interleaved in any order: one pass of the
  producer through the loop body of \<^verbatim>\<open>reserveSpaceInternal\<close>, a whole call of
  \<^verbatim>\<open>reserveSpaceInternal\<close> that returns, a commit of fewer bytes than \<open>minFreeSpace\<close> (a
  reservation of \<open>nbytes\<close> returns only when \<open>minFreeSpace > nbytes\<close>), and a peek of
  the consumer followed by the consumption of at most the bytes peek reported. Each
  step is taken as a whole: the shared position that a step reads is the one the other
  thread wrote last.
\<close>

record ring_run =
  buf :: StagingBuffer
  committed :: nat
  consumed :: nat

inductive reachable :: "64 word \<Rightarrow> ring_run \<Rightarrow> bool" for STAGING_BUFFER_SIZE :: "64 word" where
  fresh:
    "STAGING_BUFFER_SIZE \<noteq> 0 \<Longrightarrow>
     unat (storage sb) + unat STAGING_BUFFER_SIZE < 2 ^ 64 \<Longrightarrow>
     producerPos sb = storage sb \<Longrightarrow> consumerPos sb = storage sb \<Longrightarrow>
     minFreeSpace sb \<le> STAGING_BUFFER_SIZE \<Longrightarrow>
     reachable STAGING_BUFFER_SIZE \<lparr>buf = sb, committed = 0, consumed = 0\<rparr>"
| reserve_pass:
    "reachable STAGING_BUFFER_SIZE g \<Longrightarrow> minFreeSpace (buf g) \<le> nbytes \<Longrightarrow>
     reserveLoopBody STAGING_BUFFER_SIZE nbytes blocking (buf g) = (ex, sb') \<Longrightarrow>
     reachable STAGING_BUFFER_SIZE (g\<lparr>buf := sb'\<rparr>)"
| reserve_return:
    "reachable STAGING_BUFFER_SIZE g \<Longrightarrow>
     reserveSpaceInternal STAGING_BUFFER_SIZE start stop nbytes blocking (buf g) = Some (p, sb') \<Longrightarrow>
     reachable STAGING_BUFFER_SIZE (g\<lparr>buf := sb'\<rparr>)"
| commit_bytes:
    "reachable STAGING_BUFFER_SIZE g \<Longrightarrow> nbytes < minFreeSpace (buf g) \<Longrightarrow>
     reachable STAGING_BUFFER_SIZE
       (g\<lparr>buf := commit nbytes (buf g), committed := committed g + unat nbytes\<rparr>)"
| peek_consume:
    "reachable STAGING_BUFFER_SIZE g \<Longrightarrow> peek (buf g) = (p, bytesAvailable, sb') \<Longrightarrow>
     nbytes \<le> bytesAvailable \<Longrightarrow>
     reachable STAGING_BUFFER_SIZE
       (g\<lparr>buf := consume nbytes sb', consumed := consumed g + unat nbytes\<rparr>)"


text \<open>
  The ring lacks contiguous free space for \<open>nbytes\<close>: neither the bytes up to the end
  of the array nor, where a wrap is allowed, the bytes between \<open>storage\<close> and
  \<open>consumerPos\<close> are more than \<open>nbytes\<close>; with the consumer ahead, the bytes up to
  \<open>consumerPos\<close> are not more than \<open>nbytes\<close>.
\<close>

definition lacksFreeSpace :: "64 word \<Rightarrow> 64 word \<Rightarrow> StagingBuffer \<Rightarrow> bool" where
  "lacksFreeSpace STAGING_BUFFER_SIZE nbytes sb =
     (if consumerPos sb \<le> producerPos sb
      then storage sb + STAGING_BUFFER_SIZE - producerPos sb \<le> nbytes \<and>
           (consumerPos sb = storage sb \<or> consumerPos sb - storage sb \<le> nbytes)
      else consumerPos sb - producerPos sb \<le> nbytes)"

subsection \<open>Example buffers\<close>

text \<open>A ring of 16 bytes at address 4096 in which the producer has wrapped.\<close>

definition wrappedBuffer :: StagingBuffer where
  "wrappedBuffer = \<lparr>storage = 4096, producerPos = 4100, consumerPos = 4106,
     endOfRecordedSpace = 4110, minFreeSpace = 6, cyclesProducerBlocked = 0,
     numTimesProducerBlocked = 0, numAllocations = 2, shouldDeallocate = False\<rparr>"


text \<open>The same ring before anything was written: both positions at \<open>storage\<close>.\<close>

definition emptyBuffer :: StagingBuffer where
  "emptyBuffer = \<lparr>storage = 4096, producerPos = 4096, consumerPos = 4096,
     endOfRecordedSpace = 4112, minFreeSpace = 16, cyclesProducerBlocked = 0,
     numTimesProducerBlocked = 0, numAllocations = 0, shouldDeallocate = False\<rparr>"

text \<open>The ring after 15 bytes were committed and none consumed.\<close>

definition fullBuffer :: StagingBuffer where
  "fullBuffer = \<lparr>storage = 4096, producerPos = 4111, consumerPos = 4096,
     endOfRecordedSpace = 4112, minFreeSpace = 1, cyclesProducerBlocked = 21,
     numTimesProducerBlocked = 3, numAllocations = 3, shouldDeallocate = False\<rparr>"

text \<open>
  A run in which 10 bytes were reserved, committed and consumed: the buffer is empty and
  both positions are 10 bytes into the array.
\<close>

definition drainedRun :: ring_run where
  "drainedRun =
     \<lparr>buf = \<lparr>storage = 4096, producerPos = 4106, consumerPos = 4106,
              endOfRecordedSpace = 4112, minFreeSpace = 6, cyclesProducerBlocked = 7,
              numTimesProducerBlocked = 1, numAllocations = 1, shouldDeallocate = False\<rparr>,
      committed = 10, consumed = 10\<rparr>"

text \<open>
  The same run after the producer has reserved 8 more bytes, for which it wrapped to
  \<open>storage\<close>: nothing was committed in between.
\<close>

definition wrappedEmptyRun :: ring_run where
  "wrappedEmptyRun =
     \<lparr>buf = \<lparr>storage = 4096, producerPos = 4096, consumerPos = 4106,
              endOfRecordedSpace = 4106, minFreeSpace = 10, cyclesProducerBlocked = 14,
              numTimesProducerBlocked = 2, numAllocations = 1, shouldDeallocate = False\<rparr>,
      committed = 10, consumed = 10\<rparr>"


section \<open>The runtime coordinator and the compression thread (RuntimeLogger)\<close>

text \<open>
  The constants of \<^verbatim>\<open>NanoLogConfig\<close> (Config.h) and \<^verbatim>\<open>O_DIRECT\<close> (fcntl.h) that the
  functions below read are the fields of a configuration that each function takes as an
  argument.
\<close>

type_synonym byte = "8 word"

record NanoLogConfig =
  FILE_PARAMS :: int
  O_DIRECT :: int
  LOW_WORK_THRESHOLD :: "64 word"
  POLL_INTERVAL_DURING_LOW_WORK_US :: "32 word"

text \<open>
  The members of \<^verbatim>\<open>RuntimeLogger\<close> that \<^verbatim>\<open>compressionThreadMain\<close>, \<^verbatim>\<open>sync\<close> and
  \<^verbatim>\<open>setLogFile_internal\<close> write, with the members of \<^verbatim>\<open>aioCb\<close> and of \<^verbatim>\<open>metrics\<close> as
  fields of their own. \<open>compressionThreadJoinable\<close> is \<^verbatim>\<open>compressionThread.joinable()\<close>;
  \<open>outputBufferFull\<close> is the local variable of \<^verbatim>\<open>compressionThreadMain\<close> of that name.
  The two output buffers are the bytes they hold. A \<^verbatim>\<open>ssize_t\<close> is an \<open>int\<close>: the sizes
  are bounded by the size of an output buffer. The cycle counters, which only record
  readings of the time stamp counter, are left out.
\<close>

record RuntimeLogger =
  hasOutstandingOperation :: bool
  compressionThreadShouldExit :: bool
  syncRequested :: bool
  compressionThreadJoinable :: bool
  outputFd :: int
  aio_fildes :: int
  aio_nbytes :: int
  compressingBuffer :: "byte list"
  outputDoubleBuffer :: "byte list"
  nextInvocationIndexToBePersisted :: "32 word"
  outputBufferFull :: bool
  logsProcessed :: "64 word"
  totalMgsWritten :: "64 word"
  totalBytesWritten :: "64 word"
  padBytesWritten :: "64 word"
  numAioWritesCompleted :: "32 word"
  numSleeps_outOfWork :: "32 word"

subsection \<open>The output phase of compressionThreadMain\<close>

text \<open>
  What the thread does to the asynchronous I/O interface, to \<open>hasOutstandingOperation\<close>
  and to the two condition variables, in the order in which it does it: a call of
  \<^verbatim>\<open>aio_write\<close> (with \<^verbatim>\<open>aio_fildes\<close>, \<^verbatim>\<open>aio_nbytes\<close> and the \<^verbatim>\<open>aio_nbytes\<close> bytes at
  \<^verbatim>\<open>aio_buf\<close>), the assignment \<^verbatim>\<open>hasOutstandingOperation = true\<close>, a call of
  \<^verbatim>\<open>aio_suspend\<close>, a call of \<^verbatim>\<open>aio_return\<close>, the assignment
  \<^verbatim>\<open>hasOutstandingOperation = false\<close>, \<^verbatim>\<open>hintQueueEmptied.notify_one()\<close> and
  \<^verbatim>\<open>workAdded.wait_for(...)\<close>. The calls of \<^verbatim>\<open>aio_error\<close> only read. Among these
  stands what the kernel does: \<open>WriteCompleted\<close>, the completion of the write that
  \<^verbatim>\<open>aioCb\<close> describes. It stands where the thread learns of it (an \<^verbatim>\<open>aio_error\<close> that no
  longer answers \<^verbatim>\<open>EINPROGRESS\<close>, an \<^verbatim>\<open>aio_suspend\<close> that was not interrupted), which is
  the latest point at which it can have happened. A write whose completion the thread
  never learns of has no such event.
\<close>

datatype io_event =
  AioWrite int int "byte list"
| MarkOutstanding
| AioSuspend
| WriteCompleted
| AioReturn
| ClearOutstanding
| NotifyHintQueueEmptied
| WaitWorkAdded

text \<open>
  \<^verbatim>\<open>memset(dest, c, n)\<close> on the bytes of a buffer; the model stops at the end of the
  buffer, beyond which C leaves the behaviour undefined.
\<close>

definition memset :: "byte list \<Rightarrow> byte \<Rightarrow> nat \<Rightarrow> byte list" where
  "memset dest c n = replicate (min n (length dest)) c @ drop n dest"

text \<open>
  Lines 786 to 795: \<open>bytesToWrite\<close> starts as \<^verbatim>\<open>encoder.getEncodedBytes()\<close> and is padded
  when the file is opened with \<^verbatim>\<open>O_DIRECT\<close>. The operator \<^verbatim>\<open>%\<close> of C truncates towards
  zero (\<open>smod\<close>).
\<close>

definition padOutput :: "NanoLogConfig \<Rightarrow> int \<Rightarrow> RuntimeLogger \<Rightarrow> int \<times> RuntimeLogger" where
  "padOutput cfg encodedBytes rl =
     (let bytesToWrite = encodedBytes
      in if FILE_PARAMS cfg AND O_DIRECT cfg \<noteq> 0 then
           (let bytesOver = bytesToWrite smod 512
            in if bytesOver \<noteq> 0 then
                 (bytesToWrite + 512 - bytesOver,
                  rl\<lparr>compressingBuffer := memset (compressingBuffer rl) 0 (nat (512 - bytesOver)),
                     padBytesWritten := padBytesWritten rl + word_of_int (512 - bytesOver)\<rparr>)
               else (bytesToWrite, rl))
         else (bytesToWrite, rl))"

text \<open>
  Lines 786 to 820: the padding, the submission of the write, the flag, and the swap of
  the two buffers. \<^verbatim>\<open>aio_write\<close> is called whatever it returns (a failure is only
  printed).
\<close>

definition issueWrite :: "NanoLogConfig \<Rightarrow> int \<Rightarrow> RuntimeLogger \<Rightarrow> io_event list \<times> RuntimeLogger" where
  "issueWrite cfg encodedBytes rl =
     (let (bytesToWrite, rl1) = padOutput cfg encodedBytes rl;
          rl2 = rl1\<lparr>aio_fildes := outputFd rl1, aio_nbytes := bytesToWrite,
                    totalBytesWritten := totalBytesWritten rl1 + word_of_int bytesToWrite,
                    totalMgsWritten := logsProcessed rl1\<rparr>;
          submitted = AioWrite (aio_fildes rl2) (aio_nbytes rl2)
                        (take (nat (aio_nbytes rl2)) (compressingBuffer rl2));
          rl3 = rl2\<lparr>hasOutstandingOperation := True\<rparr>;
          rl4 = rl3\<lparr>compressingBuffer := outputDoubleBuffer rl3,
                    outputDoubleBuffer := compressingBuffer rl3,
                    outputBufferFull := False\<rparr>
      in ([submitted, MarkOutstanding], rl4))"

text \<open>Lines 641 to 656: the completion of the outstanding write is collected.\<close>

definition finishIO :: "RuntimeLogger \<Rightarrow> io_event list \<times> RuntimeLogger" where
  "finishIO rl =
     ([AioReturn, ClearOutstanding],
      rl\<lparr>numAioWritesCompleted := numAioWritesCompleted rl + 1,
         hasOutstandingOperation := False\<rparr>)"

text \<open>
  What one pass of the \<^verbatim>\<open>while\<close> loop of \<^verbatim>\<open>compressionThreadMain\<close> takes from outside:
  the outcome of its scan of the staging buffers (lines 437 to 567, which contain no
  call of the asynchronous I/O interface and no assignment to
  \<open>hasOutstandingOperation\<close>): the value of \<^verbatim>\<open>encoder.getEncodedBytes()\<close>, the bytes the
  encoder has left in \<open>compressingBuffer\<close>, whether the encoder reported a full output
  buffer, and \<open>bytesConsumedThisIteration\<close>; what the kernel answers about the
  outstanding write: whether it is in progress at the test
  \<^verbatim>\<open>aio_error(&aioCb) == EINPROGRESS\<close> of line 592, whether \<^verbatim>\<open>aio_suspend\<close> (line 600) is
  interrupted and returns before the write has completed (it returns -1 with
  \<^verbatim>\<open>EINTR\<close> when a signal arrives; otherwise it returns when the write has completed),
  and whether the write is in progress later in the pass (at the test of line 636, and
  through the rest of the pass after an interrupted \<^verbatim>\<open>aio_suspend\<close>); and whether another
  thread has set \<open>compressionThreadShouldExit\<close> or \<open>syncRequested\<close> since the last pass.
\<close>

record scan_outcome =
  encodedBytes :: int
  encoderBuffer :: "byte list"
  scanFoundOutputFull :: bool
  bytesConsumedThisIteration :: "64 word"
  aioInProgress :: bool
  aioSuspendInterrupted :: bool
  aioStillInProgress :: bool
  exitRequested :: bool
  syncCalled :: bool

text \<open>
  Lines 617 to 634: if little was consumed in this pass, the thread sleeps on
  \<open>workAdded\<close> for a short while.
\<close>

definition sleepOnLowWork ::
  "NanoLogConfig \<Rightarrow> scan_outcome \<Rightarrow> RuntimeLogger \<Rightarrow> io_event list \<times> RuntimeLogger" where
  "sleepOnLowWork cfg sc rl =
     (if bytesConsumedThisIteration sc \<le> LOW_WORK_THRESHOLD cfg
           \<and> POLL_INTERVAL_DURING_LOW_WORK_US cfg > 0
      then ([WaitWorkAdded], rl\<lparr>numSleeps_outOfWork := numSleeps_outOfWork rl + 1\<rparr>)
      else ([], rl))"

text \<open>
  Lines 592 to 639, the statement \<^verbatim>\<open>if (aio_error(&aioCb) == EINPROGRESS) { ... }\<close>. With
  the output buffer full the thread waits for the write in \<^verbatim>\<open>aio_suspend\<close>; a failure of
  \<^verbatim>\<open>aio_suspend\<close> is only printed, and the thread goes on as after a success, so that the
  write has completed at this point unless \<^verbatim>\<open>aio_suspend\<close> was interrupted and the write
  is still in progress. Otherwise the thread may sleep, and it tests the write again: it
  ends the pass with \<^verbatim>\<open>continue\<close> if the write is in progress even then. The last
  component of the result says whether the pass ended with that \<^verbatim>\<open>continue\<close>.
\<close>

definition waitForWrite ::
  "NanoLogConfig \<Rightarrow> scan_outcome \<Rightarrow> RuntimeLogger \<Rightarrow> io_event list \<times> RuntimeLogger \<times> bool" where
  "waitForWrite cfg sc rl =
     (if aioInProgress sc then
        (if outputBufferFull rl then
           (if aioSuspendInterrupted sc \<and> aioStillInProgress sc
            then ([AioSuspend], rl, False)
            else ([AioSuspend, WriteCompleted], rl, False))
         else (let (slept, rl1) = sleepOnLowWork cfg sc rl
               in if aioStillInProgress sc then (slept, rl1, True)
                  else (slept @ [WriteCompleted], rl1, False)))
      else ([WriteCompleted], rl, False))"

text \<open>
  Lines 591 to 656, the statement \<^verbatim>\<open>if (hasOutstandingOperation) { ... }\<close>: the wait, and
  unless the pass ended there, the collection of the completion.
\<close>

definition awaitOutstanding ::
  "NanoLogConfig \<Rightarrow> scan_outcome \<Rightarrow> RuntimeLogger \<Rightarrow> io_event list \<times> RuntimeLogger \<times> bool" where
  "awaitOutstanding cfg sc rl =
     (if hasOutstandingOperation rl then
        (let (waited, rl1, continue) = waitForWrite cfg sc rl
         in if continue then (waited, rl1, True)
            else (let (reaped, rl2) = finishIO rl1 in (waited @ reaped, rl2, False)))
      else ([], rl, False))"

text \<open>
  Lines 569 to 820. With nothing encoded the pass ends: a requested sync is
  acknowledged by clearing \<open>syncRequested\<close>, and otherwise the thread notifies
  \<open>hintQueueEmptied\<close> and sleeps on \<open>workAdded\<close>. With output encoded, the outstanding
  write is dealt with as above, and unless the pass ended there the next write is issued.
\<close>

definition outputPhase ::
  "NanoLogConfig \<Rightarrow> scan_outcome \<Rightarrow> RuntimeLogger \<Rightarrow> io_event list \<times> RuntimeLogger" where
  "outputPhase cfg sc rl =
     (if encodedBytes sc = 0 then
        (if syncRequested rl then ([], rl\<lparr>syncRequested := False\<rparr>)
         else ([NotifyHintQueueEmptied, WaitWorkAdded], rl))
      else
        (let (awaited, rl1, continue) = awaitOutstanding cfg sc rl
         in if continue then (awaited, rl1)
            else (let (issued, rl2) = issueWrite cfg (encodedBytes sc) rl1
                  in (awaited @ issued, rl2))))"

text \<open>The state after the scan of one pass.\<close>

definition afterScan :: "scan_outcome \<Rightarrow> RuntimeLogger \<Rightarrow> RuntimeLogger" where
  "afterScan sc rl =
     rl\<lparr>compressingBuffer := encoderBuffer sc,
        outputBufferFull := (outputBufferFull rl \<or> scanFoundOutputFull sc)\<rparr>"

text \<open>
  Lines 823 to 839, after the loop: the thread polls \<^verbatim>\<open>aio_error\<close> until the outstanding
  write is no longer in progress (the wait is taken to end) and collects its completion.
\<close>

definition drainAtExit :: "RuntimeLogger \<Rightarrow> io_event list \<times> RuntimeLogger" where
  "drainAtExit rl =
     (if hasOutstandingOperation rl then
        ([WriteCompleted, AioReturn, ClearOutstanding],
         rl\<lparr>numAioWritesCompleted := numAioWritesCompleted rl + 1,
            hasOutstandingOperation := False\<rparr>)
      else ([], rl))"

text \<open>
  \<^verbatim>\<open>compressionThreadMain\<close> over the passes observed so far: the events, the state, and
  whether the thread has finished. A pass that finds \<open>compressionThreadShouldExit\<close> set
  leaves the loop.
\<close>

fun compressionThreadMain ::
  "NanoLogConfig \<Rightarrow> scan_outcome list \<Rightarrow> RuntimeLogger \<Rightarrow> io_event list \<times> RuntimeLogger \<times> bool" where
  "compressionThreadMain cfg [] rl = ([], rl, False)"
| "compressionThreadMain cfg (sc # scs) rl =
     (let rl0 = rl\<lparr>compressionThreadShouldExit := (compressionThreadShouldExit rl \<or> exitRequested sc),
                   syncRequested := (syncRequested rl \<or> syncCalled sc)\<rparr>
      in if compressionThreadShouldExit rl0 then
           (let (drained, rl1) = drainAtExit rl0 in (drained, rl1, True))
         else
           (let (events, rl1) = outputPhase cfg sc (afterScan sc rl0);
                (later, rl2, finished) = compressionThreadMain cfg scs rl1
            in (events @ later, rl2, finished)))"

text \<open>
  The protocol between the thread and the asynchronous I/O interface: a write is
  submitted only when none is outstanding (\<open>Idle\<close>) and the flag is set next, with
  nothing in between (\<open>Submitted\<close>); while the write is in progress (\<open>Running\<close>) the
  thread may wait for it, notify and sleep; the completion of a write is collected only
  once the write has completed (\<open>Completed\<close>), and the flag is cleared next, with nothing
  in between (\<open>Reaped\<close>). Every other event is a violation (\<open>None\<close>): among them
  \<^verbatim>\<open>aio_return\<close> on a write that is still in progress, and \<^verbatim>\<open>aio_write\<close> before the flag is
  cleared.
\<close>

datatype aio_phase = Idle | Submitted | Running | Completed | Reaped

fun aio_step :: "aio_phase \<Rightarrow> io_event \<Rightarrow> aio_phase option" where
  "aio_step Idle (AioWrite fd n bytes) = Some Submitted"
| "aio_step Submitted MarkOutstanding = Some Running"
| "aio_step Running AioSuspend = Some Running"
| "aio_step Running WriteCompleted = Some Completed"
| "aio_step Completed AioReturn = Some Reaped"
| "aio_step Reaped ClearOutstanding = Some Idle"
| "aio_step Idle NotifyHintQueueEmptied = Some Idle"
| "aio_step Idle WaitWorkAdded = Some Idle"
| "aio_step Running NotifyHintQueueEmptied = Some Running"
| "aio_step Running WaitWorkAdded = Some Running"
| "aio_step _ _ = None"

fun aio_run :: "aio_phase \<Rightarrow> io_event list \<Rightarrow> aio_phase option" where
  "aio_run ph [] = Some ph"
| "aio_run ph (e # es) = (case aio_step ph e of None \<Rightarrow> None | Some ph' \<Rightarrow> aio_run ph' es)"

text \<open>
  The number of writes in flight after a sequence of events: the writes that were
  submitted with \<^verbatim>\<open>aio_write\<close> and have not completed. A call of \<^verbatim>\<open>aio_return\<close> does not
  change it.
\<close>

fun writesInFlight :: "io_event list \<Rightarrow> int" where
  "writesInFlight [] = 0"
| "writesInFlight (AioWrite fd n bytes # es) = writesInFlight es + 1"
| "writesInFlight (WriteCompleted # es) = writesInFlight es - 1"
| "writesInFlight (e # es) = writesInFlight es"

text \<open>
  The phase of the protocol at the start of a pass, which the flag stands for (an
  outstanding write whose completion the thread has not learnt of), and the writes in
  flight in each phase.
\<close>

definition flagPhase :: "RuntimeLogger \<Rightarrow> aio_phase" where
  "flagPhase rl = (if hasOutstandingOperation rl then Running else Idle)"

fun phaseCount :: "aio_phase \<Rightarrow> int" where
  "phaseCount Idle = 0"
| "phaseCount Submitted = 1"
| "phaseCount Running = 1"
| "phaseCount Completed = 0"
| "phaseCount Reaped = 0"


subsection \<open>sync and setLogFile\<close>

text \<open>
  The calls of the operating system that \<^verbatim>\<open>setLogFile_internal\<close> makes: \<^verbatim>\<open>access\<close> and
  \<^verbatim>\<open>open\<close> with their results, and the text of \<^verbatim>\<open>strerror(errno)\<close> after a failed
  \<^verbatim>\<open>open\<close>.
\<close>

record OS =
  access :: "string \<Rightarrow> int \<Rightarrow> int"
  open_file :: "string \<Rightarrow> int \<Rightarrow> int \<Rightarrow> int"
  strerror_errno :: string

definition F_OK :: int where "F_OK = 0"
definition R_OK :: int where "R_OK = 4"
definition W_OK :: int where "W_OK = 2"

text \<open>The exception \<^verbatim>\<open>std::ios_base::failure\<close> with its message.\<close>

datatype error = ios_base_failure string

text \<open>
  The steps of the calling thread, in the order in which it takes them. The fields of
  the state are those the calling thread writes; what the compression thread writes
  meanwhile is not part of the state returned.
\<close>

datatype handoff_step =
  SetSyncRequested
| NotifyWorkAdded
| WaitHintQueueEmptied
| SetExitFlag
| JoinWorker
| CloseFd int
| InstallFd int
| ResetDictionaryIndex
| ClearExitFlag
| LaunchWorker

text \<open>\<^verbatim>\<open>RuntimeLogger::sync\<close> (BENCHMARK_DISCARD_ENTRIES_AT_STAGINGBUFFER is not defined).\<close>

definition sync :: "RuntimeLogger \<Rightarrow> handoff_step list \<times> RuntimeLogger" where
  "sync rl =
     ([SetSyncRequested, NotifyWorkAdded, WaitHintQueueEmptied], rl\<lparr>syncRequested := True\<rparr>)"

text \<open>
  \<^verbatim>\<open>RuntimeLogger::setLogFile_internal\<close>. The result is the exception thrown, if any, the
  steps taken and the state. The mode \<^verbatim>\<open>0666\<close> is 438.
\<close>

definition setLogFile_internal ::
  "NanoLogConfig \<Rightarrow> OS \<Rightarrow> string \<Rightarrow> RuntimeLogger
     \<Rightarrow> error option \<times> handoff_step list \<times> RuntimeLogger" where
  "setLogFile_internal cfg os filename rl =
     (if access os filename F_OK = 0 \<and> access os filename (R_OK OR W_OK) \<noteq> 0 then
        (Some (ios_base_failure (''Unable to read/write from new log file: '' @ filename)), [], rl)
      else
        (let newFd = open_file os filename (FILE_PARAMS cfg) 438
         in if newFd < 0 then
              (Some (ios_base_failure (''Unable to open file new log file: '' @ [CHR 0x27] @
                                       filename @ [CHR 0x27] @ '': '' @ strerror_errno os)),
               [], rl)
            else
              (let (synced, rl1) = sync rl;
                   rl2 = rl1\<lparr>compressionThreadShouldExit := True\<rparr>;
                   stopping = [SetExitFlag, NotifyWorkAdded];
                   (joined, rl3) = (if compressionThreadJoinable rl2
                                    then ([JoinWorker], rl2\<lparr>compressionThreadJoinable := False\<rparr>)
                                    else ([], rl2));
                   closed = (if outputFd rl3 > 0 then [CloseFd (outputFd rl3)] else []);
                   rl4 = rl3\<lparr>outputFd := newFd\<rparr>;
                   rl5 = rl4\<lparr>nextInvocationIndexToBePersisted := 0\<rparr>;
                   rl6 = rl5\<lparr>compressionThreadShouldExit := False\<rparr>;
                   rl7 = rl6\<lparr>compressionThreadJoinable := True\<rparr>
               in (None,
                   synced @ stopping @ joined @ closed @
                     [InstallFd newFd, ResetDictionaryIndex, ClearExitFlag, LaunchWorker],
                   rl7))))"

text \<open>\<^verbatim>\<open>RuntimeLogger::setLogFile\<close> calls \<^verbatim>\<open>setLogFile_internal\<close> on the singleton.\<close>

definition setLogFile ::
  "NanoLogConfig \<Rightarrow> OS \<Rightarrow> string \<Rightarrow> RuntimeLogger
     \<Rightarrow> error option \<times> handoff_step list \<times> RuntimeLogger" where
  "setLogFile cfg os filename nanoLogSingleton = setLogFile_internal cfg os filename nanoLogSingleton"


subsection \<open>Example configurations and states\<close>

text \<open>
  A configuration without \<^verbatim>\<open>O_DIRECT\<close> and one with it, a coordinator with no write
  outstanding, passes of the compression thread (among them one with a full output
  buffer in which a signal interrupts \<^verbatim>\<open>aio_suspend\<close> while the write is in progress), a
  coordinator whose encoder has
  produced 513 bytes, and three operating systems: one in which the file exists and is
  not writable, one in which it cannot be created, and one in which it can.
\<close>

definition plainConfig :: NanoLogConfig where
  "plainConfig = \<lparr>FILE_PARAMS = 1089, O_DIRECT = 16384, LOW_WORK_THRESHOLD = 1048576,
     POLL_INTERVAL_DURING_LOW_WORK_US = 1\<rparr>"

definition directConfig :: NanoLogConfig where
  "directConfig = \<lparr>FILE_PARAMS = 17473, O_DIRECT = 16384, LOW_WORK_THRESHOLD = 1048576,
     POLL_INTERVAL_DURING_LOW_WORK_US = 1\<rparr>"

definition idleLogger :: RuntimeLogger where
  "idleLogger = \<lparr>hasOutstandingOperation = False, compressionThreadShouldExit = False,
     syncRequested = False, compressionThreadJoinable = True, outputFd = 3,
     aio_fildes = 0, aio_nbytes = 0, compressingBuffer = [0, 0, 0, 0],
     outputDoubleBuffer = [0, 0, 0, 0], nextInvocationIndexToBePersisted = 5,
     outputBufferFull = False, logsProcessed = 0, totalMgsWritten = 0, totalBytesWritten = 0,
     padBytesWritten = 0, numAioWritesCompleted = 0, numSleeps_outOfWork = 0\<rparr>"

definition firstScan :: scan_outcome where
  "firstScan = \<lparr>encodedBytes = 3, encoderBuffer = [1, 2, 3, 0], scanFoundOutputFull = False,
     bytesConsumedThisIteration = 64, aioInProgress = False,
     aioSuspendInterrupted = False, aioStillInProgress = False,
     exitRequested = False, syncCalled = False\<rparr>"

definition secondScan :: scan_outcome where
  "secondScan = \<lparr>encodedBytes = 2, encoderBuffer = [4, 5, 0, 0], scanFoundOutputFull = False,
     bytesConsumedThisIteration = 64, aioInProgress = True,
     aioSuspendInterrupted = False, aioStillInProgress = True,
     exitRequested = False, syncCalled = False\<rparr>"

definition thirdScan :: scan_outcome where
  "thirdScan = \<lparr>encodedBytes = 4, encoderBuffer = [4, 5, 6, 7], scanFoundOutputFull = True,
     bytesConsumedThisIteration = 64, aioInProgress = True,
     aioSuspendInterrupted = False, aioStillInProgress = False,
     exitRequested = False, syncCalled = False\<rparr>"

definition interruptedScan :: scan_outcome where
  "interruptedScan = \<lparr>encodedBytes = 4, encoderBuffer = [4, 5, 6, 7], scanFoundOutputFull = True,
     bytesConsumedThisIteration = 64, aioInProgress = True,
     aioSuspendInterrupted = True, aioStillInProgress = True,
     exitRequested = False, syncCalled = False\<rparr>"

definition exitScan :: scan_outcome where
  "exitScan = \<lparr>encodedBytes = 0, encoderBuffer = [], scanFoundOutputFull = False,
     bytesConsumedThisIteration = 0, aioInProgress = False,
     aioSuspendInterrupted = False, aioStillInProgress = False,
     exitRequested = True, syncCalled = False\<rparr>"

definition loggerWith513 :: RuntimeLogger where
  "loggerWith513 = idleLogger\<lparr>compressingBuffer := replicate 513 170 @ replicate 511 255,
     outputDoubleBuffer := replicate 1024 0\<rparr>"

definition unwritableOS :: OS where
  "unwritableOS = \<lparr>access = (\<lambda>path mode. if mode = 0 then 0 else - 1),
     open_file = (\<lambda>path flags mode. - 1), strerror_errno = ''Permission denied''\<rparr>"

definition missingDirOS :: OS where
  "missingDirOS = \<lparr>access = (\<lambda>path mode. - 1),
     open_file = (\<lambda>path flags mode. - 1), strerror_errno = ''No such file or directory''\<rparr>"



section \<open>Properties of the staging buffer\<close>

subsection \<open>peek\<close>

lemma peek_eq_peek_spec: "peek sb = peek_spec sb"
  by (simp add: peek_def peek_spec_def Let_def)

lemma unat_ptr_diff: "(a :: 64 word) \<le> b \<Longrightarrow> unat a + unat (b - a) = unat b"
  by (simp add: unat_sub word_le_nat_alt)

lemma peek_reported_end:
  assumes "storage sb \<le> producerPos sb"
    and "producerPos sb < consumerPos sb \<longrightarrow> consumerPos sb \<le> endOfRecordedSpace sb"
    and "peek sb = (p, n, sb')"
  shows "unat p + unat n =
           unat (if producerPos sb' < consumerPos sb' then endOfRecordedSpace sb'
                 else producerPos sb')"
proof (cases "producerPos sb < consumerPos sb")
  case wrapped: True
  then have le: "consumerPos sb \<le> endOfRecordedSpace sb"
    using assms(2) by simp
  show ?thesis
  proof (cases "endOfRecordedSpace sb = consumerPos sb")
    case True
    with wrapped assms(3) have "p = storage sb" "n = producerPos sb - storage sb"
      "sb' = sb\<lparr>consumerPos := storage sb\<rparr>"
      by (auto simp: peek_def Let_def)
    moreover from assms(1) have "\<not> producerPos sb < storage sb"
      by (simp add: not_less)
    ultimately show ?thesis
      using assms(1) by (simp add: unat_ptr_diff)
  next
    case False
    then have "0 < endOfRecordedSpace sb - consumerPos sb"
      by (simp add: word_greater_zero_iff)
    with wrapped assms(3) have "p = consumerPos sb"
      "n = endOfRecordedSpace sb - consumerPos sb" "sb' = sb"
      by (auto simp: peek_def Let_def)
    with wrapped le show ?thesis
      by (simp add: unat_ptr_diff)
  qed
next
  case False
  with assms(3) have "p = consumerPos sb" "n = producerPos sb - consumerPos sb" "sb' = sb"
    by (auto simp: peek_def Let_def)
  moreover from False have "consumerPos sb \<le> producerPos sb"
    by (simp add: not_less)
  ultimately show ?thesis
    using False by (simp add: unat_ptr_diff)
qed

text \<open>
  Claim C3. peek is the algorithm the specification gives: it equals \<open>peek_spec\<close>, the
  three cases written out. Consequently the bytes it reports, the addresses from the
  returned pointer \<open>p\<close> up to \<open>p + n\<close>, never reach into the invalid region: in a buffer
  whose positions are well formed (\<open>producerPos\<close> is not below \<open>storage\<close>, and a consumer
  ahead of the producer is not beyond \<open>endOfRecordedSpace\<close>) the reported bytes end
  exactly at \<open>endOfRecordedSpace\<close> while the producer is still behind the consumer, and
  exactly at \<open>producerPos\<close> otherwise, without overflow of the address.
\<close>

theorem peek_follows_algorithm:
  "peek sb = peek_spec sb \<and>
   (storage sb \<le> producerPos sb \<and>
    (producerPos sb < consumerPos sb \<longrightarrow> consumerPos sb \<le> endOfRecordedSpace sb) \<longrightarrow>
      (case peek sb of (p, n, sb') \<Rightarrow>
         unat p + unat n =
           unat (if producerPos sb' < consumerPos sb' then endOfRecordedSpace sb'
                 else producerPos sb')))"
proof (intro conjI impI)
  show "peek sb = peek_spec sb"
    by (rule peek_eq_peek_spec)
next
  assume wf: "storage sb \<le> producerPos sb \<and>
    (producerPos sb < consumerPos sb \<longrightarrow> consumerPos sb \<le> endOfRecordedSpace sb)"
  obtain p n sb' where pk: "peek sb = (p, n, sb')"
    by (cases "peek sb") auto
  from wf pk have "unat p + unat n =
      unat (if producerPos sb' < consumerPos sb' then endOfRecordedSpace sb'
            else producerPos sb')"
    using peek_reported_end [of sb p n sb'] by blast
  with pk show "case peek sb of (p, n, sb') \<Rightarrow>
      unat p + unat n =
        unat (if producerPos sb' < consumerPos sb' then endOfRecordedSpace sb'
              else producerPos sb')"
    by simp
qed

theorem peek_follows_algorithm_witness:
  "storage wrappedBuffer \<le> producerPos wrappedBuffer \<and>
   producerPos wrappedBuffer < consumerPos wrappedBuffer \<and>
   consumerPos wrappedBuffer \<le> endOfRecordedSpace wrappedBuffer \<and>
   peek wrappedBuffer = (4106, 4, wrappedBuffer) \<and>
   peek wrappedBuffer = peek_spec wrappedBuffer \<and>
   unat (4106 :: ptr) + unat (4 :: 64 word) = unat (endOfRecordedSpace wrappedBuffer)"
  using peek_follows_algorithm [of wrappedBuffer]
  by (simp add: wrappedBuffer_def peek_def Let_def)


subsection \<open>The loop of reserveSpaceInternal\<close>

lemma reserveLoopBody_stats:
  "reserveLoopBody sz nbytes blocking sb = (ex, sb') \<Longrightarrow>
     numTimesProducerBlocked sb' = numTimesProducerBlocked sb \<and>
     cyclesProducerBlocked sb' = cyclesProducerBlocked sb"
  by (auto simp: reserveLoopBody_def endOfIteration_def Let_def split: if_splits)


lemma reserveLoop_invariant:
  assumes run: "reserveLoop sz nbytes blocking sb = Some r"
    and init: "I sb"
    and step: "\<And>s ex s'. I s \<Longrightarrow> minFreeSpace s \<le> nbytes \<Longrightarrow>
                 reserveLoopBody sz nbytes blocking s = (ex, s') \<Longrightarrow> I s'"
  shows "I (snd r)"
proof -
  have "reserveLoop sz nbytes blocking sb = Some r \<Longrightarrow>
          (\<forall>s ex s'. I s \<longrightarrow> minFreeSpace s \<le> nbytes \<longrightarrow>
             reserveLoopBody sz nbytes blocking s = (ex, s') \<longrightarrow> I s') \<longrightarrow> I sb \<longrightarrow> I (snd r)"
  proof (rule reserveLoop.raw_induct
      [where P = "\<lambda>sz nbytes blocking sb r.
         (\<forall>s ex s'. I s \<longrightarrow> minFreeSpace s \<le> nbytes \<longrightarrow>
             reserveLoopBody sz nbytes blocking s = (ex, s') \<longrightarrow> I s') \<longrightarrow> I sb \<longrightarrow> I (snd r)"])
    fix loop sz nbytes blocking sb r
    assume ih: "\<And>sz nbytes blocking sb r. loop sz nbytes blocking sb = Some r \<Longrightarrow>
        (\<forall>s ex s'. I s \<longrightarrow> minFreeSpace s \<le> nbytes \<longrightarrow>
             reserveLoopBody sz nbytes blocking s = (ex, s') \<longrightarrow> I s') \<longrightarrow> I sb \<longrightarrow> I (snd r)"
      and unfolded: "(if minFreeSpace sb \<le> nbytes then
        (case reserveLoopBody sz nbytes blocking sb of
           (LoopBreak, sb') \<Rightarrow> Some (True, sb')
         | (ReturnNullptr, sb') \<Rightarrow> Some (False, sb')
         | (LoopNext, sb') \<Rightarrow> loop sz nbytes blocking sb')
      else Some (True, sb)) = Some r"
    show "(\<forall>s ex s'. I s \<longrightarrow> minFreeSpace s \<le> nbytes \<longrightarrow>
             reserveLoopBody sz nbytes blocking s = (ex, s') \<longrightarrow> I s') \<longrightarrow> I sb \<longrightarrow> I (snd r)"
    proof (intro impI)
      assume st: "\<forall>s ex s'. I s \<longrightarrow> minFreeSpace s \<le> nbytes \<longrightarrow>
             reserveLoopBody sz nbytes blocking s = (ex, s') \<longrightarrow> I s'" and i: "I sb"
      show "I (snd r)"
      proof (cases "minFreeSpace sb \<le> nbytes")
        case False
        with unfolded i show ?thesis by auto
      next
        case True
        obtain ex sb1 where body: "reserveLoopBody sz nbytes blocking sb = (ex, sb1)"
          by (cases "reserveLoopBody sz nbytes blocking sb") auto
        from st i True body have i1: "I sb1" by blast
        show ?thesis
        proof (cases ex)
          case LoopBreak
          with True body unfolded i1 show ?thesis by auto
        next
          case ReturnNullptr
          with True body unfolded i1 show ?thesis by auto
        next
          case LoopNext
          with True body unfolded have "loop sz nbytes blocking sb1 = Some r" by simp
          from ih [OF this] st i1 show ?thesis by blast
        qed
      qed
    qed
  qed (rule run)
  note aux = this
  have st: "\<forall>s ex s'. I s \<longrightarrow> minFreeSpace s \<le> nbytes \<longrightarrow>
             reserveLoopBody sz nbytes blocking s = (ex, s') \<longrightarrow> I s'"
  proof (intro allI impI)
    fix s ex s'
    assume "I s" "minFreeSpace s \<le> nbytes" "reserveLoopBody sz nbytes blocking s = (ex, s')"
    then show "I s'" by (rule step)
  qed
  show ?thesis
    by (rule aux [OF run, THEN mp, OF st, THEN mp, OF init])
qed

lemma reserveLoop_stats:
  assumes "reserveLoop sz nbytes blocking sb = Some (fl, sb')"
  shows "numTimesProducerBlocked sb' = numTimesProducerBlocked sb \<and>
     cyclesProducerBlocked sb' = cyclesProducerBlocked sb"
proof -
  have "numTimesProducerBlocked (snd (fl, sb')) = numTimesProducerBlocked sb \<and>
     cyclesProducerBlocked (snd (fl, sb')) = cyclesProducerBlocked sb"
  proof (rule reserveLoop_invariant [OF assms,
        where I = "\<lambda>s. numTimesProducerBlocked s = numTimesProducerBlocked sb \<and>
                      cyclesProducerBlocked s = cyclesProducerBlocked sb"])
    show "numTimesProducerBlocked sb = numTimesProducerBlocked sb \<and>
                      cyclesProducerBlocked sb = cyclesProducerBlocked sb"
      by simp
  next
    fix s ex s'
    assume "numTimesProducerBlocked s = numTimesProducerBlocked sb \<and>
        cyclesProducerBlocked s = cyclesProducerBlocked sb"
      and "reserveLoopBody sz nbytes blocking s = (ex, s')"
    then show "numTimesProducerBlocked s' = numTimesProducerBlocked sb \<and>
        cyclesProducerBlocked s' = cyclesProducerBlocked sb"
      using reserveLoopBody_stats [of sz nbytes blocking s ex s'] by simp
  qed
  then show ?thesis by simp
qed

lemma reserveLoop_spins:
  assumes init: "I sb"
    and step: "\<And>s. I s \<Longrightarrow> minFreeSpace s \<le> nbytes \<and>
                 (\<exists>s'. reserveLoopBody sz nbytes blocking s = (LoopNext, s') \<and> I s')"
  shows "reserveLoop sz nbytes blocking sb = None"
proof (rule ccontr)
  assume "reserveLoop sz nbytes blocking sb \<noteq> None"
  then obtain r where run: "reserveLoop sz nbytes blocking sb = Some r" by auto
  have "reserveLoop sz nbytes blocking sb = Some r \<Longrightarrow>
     (\<forall>s. I s \<longrightarrow> minFreeSpace s \<le> nbytes \<and>
                 (\<exists>s'. reserveLoopBody sz nbytes blocking s = (LoopNext, s') \<and> I s')) \<longrightarrow> \<not> I sb"
  proof (rule reserveLoop.raw_induct
      [where P = "\<lambda>sz nbytes blocking sb r.
         (\<forall>s. I s \<longrightarrow> minFreeSpace s \<le> nbytes \<and>
                 (\<exists>s'. reserveLoopBody sz nbytes blocking s = (LoopNext, s') \<and> I s')) \<longrightarrow> \<not> I sb"])
    fix loop sz nbytes blocking sb r
    assume ih: "\<And>sz nbytes blocking sb r. loop sz nbytes blocking sb = Some r \<Longrightarrow>
        (\<forall>s. I s \<longrightarrow> minFreeSpace s \<le> nbytes \<and>
                 (\<exists>s'. reserveLoopBody sz nbytes blocking s = (LoopNext, s') \<and> I s')) \<longrightarrow> \<not> I sb"
      and unfolded: "(if minFreeSpace sb \<le> nbytes then
        (case reserveLoopBody sz nbytes blocking sb of
           (LoopBreak, sb') \<Rightarrow> Some (True, sb')
         | (ReturnNullptr, sb') \<Rightarrow> Some (False, sb')
         | (LoopNext, sb') \<Rightarrow> loop sz nbytes blocking sb')
      else Some (True, sb)) = Some r"
    show "(\<forall>s. I s \<longrightarrow> minFreeSpace s \<le> nbytes \<and>
                 (\<exists>s'. reserveLoopBody sz nbytes blocking s = (LoopNext, s') \<and> I s')) \<longrightarrow> \<not> I sb"
    proof (intro impI notI)
      assume st: "\<forall>s. I s \<longrightarrow> minFreeSpace s \<le> nbytes \<and>
                 (\<exists>s'. reserveLoopBody sz nbytes blocking s = (LoopNext, s') \<and> I s')" and i: "I sb"
      then obtain s' where le: "minFreeSpace sb \<le> nbytes"
        and body: "reserveLoopBody sz nbytes blocking sb = (LoopNext, s')" and i': "I s'"
        by blast
      with unfolded have "loop sz nbytes blocking s' = Some r" by simp
      from ih [OF this] st i' show False by blast
    qed
  qed (rule run)
  note aux = this
  have st: "\<forall>s. I s \<longrightarrow> minFreeSpace s \<le> nbytes \<and>
                 (\<exists>s'. reserveLoopBody sz nbytes blocking s = (LoopNext, s') \<and> I s')"
  proof (intro allI impI)
    fix s
    assume "I s"
    then show "minFreeSpace s \<le> nbytes \<and>
                 (\<exists>s'. reserveLoopBody sz nbytes blocking s = (LoopNext, s') \<and> I s')"
      by (rule step)
  qed
  from aux [OF run, THEN mp, OF st] init show False
    by (rule notE)
qed

subsection \<open>The ring invariant\<close>

lemma unat_sub_nat: "unat b \<le> unat a \<Longrightarrow> unat (a - b) = unat a - unat b"
  for a b :: "64 word"
  by (simp add: unat_sub word_le_nat_alt)

lemma unat_add_nat: "unat a + unat b < 2 ^ 64 \<Longrightarrow> unat (a + b) = unat a + unat b"
  for a b :: "64 word"
  using unat_add_lem [of a b] by simp

lemma unat_eqD: "unat a = unat b \<Longrightarrow> a = b"
  for a b :: "64 word"
  by (simp add: word_unat_eq_iff)

lemma ring_inv_body:
  assumes "ring_inv sz sb" and "reserveLoopBody sz nbytes blocking sb = (ex, sb')"
  shows "ring_inv sz sb'" and "unread sb' = unread sb"
  using assms
  unfolding ring_inv_def unread_def reserveLoopBody_def endOfIteration_def Let_def
  by (auto split: if_splits simp: word_le_nat_alt word_less_nat_alt unat_sub_nat unat_add_nat
      dest: unat_eqD)

lemma ring_inv_commit:
  assumes "ring_inv sz sb" and "n < minFreeSpace sb"
  shows "ring_inv sz (commit n sb)" and "unread (commit n sb) = unread sb + unat n"
proof -
  from assms(2) have nm: "unat n < unat (minFreeSpace sb)"
    by (simp add: word_less_nat_alt)
  with assms(1) have "unat (producerPos sb) + unat n < 2 ^ 64"
    unfolding ring_inv_def Let_def by (auto split: if_splits)
  then have p: "unat (producerPos sb + n) = unat (producerPos sb) + unat n"
    by (rule unat_add_nat)
  from nm have m: "unat (minFreeSpace sb - n) = unat (minFreeSpace sb) - unat n"
    by (simp add: unat_sub_nat)
  from assms(1) nm show "ring_inv sz (commit n sb)"
    unfolding ring_inv_def commit_def Let_def by (auto simp: p m split: if_splits)
  from assms(1) nm show "unread (commit n sb) = unread sb + unat n"
    unfolding ring_inv_def unread_def commit_def Let_def by (auto simp: p m split: if_splits)
qed

lemma ring_inv_peek:
  assumes "ring_inv sz sb" and "peek sb = (p, avail, sb')"
  shows "ring_inv sz sb'" and "unread sb' = unread sb"
    and "unat avail = (if unat (producerPos sb') < unat (consumerPos sb')
                  then unat (endOfRecordedSpace sb') - unat (consumerPos sb')
                  else unat (producerPos sb') - unat (consumerPos sb'))"
    and "p = consumerPos sb'"
  using assms
  unfolding ring_inv_def unread_def peek_def Let_def
  by (auto split: if_splits simp: word_greater_zero_iff word_le_nat_alt word_less_nat_alt unat_sub_nat)

lemma ring_inv_consume:
  assumes "ring_inv sz sb"
    and "unat n \<le> (if unat (producerPos sb) < unat (consumerPos sb)
                  then unat (endOfRecordedSpace sb) - unat (consumerPos sb)
                  else unat (producerPos sb) - unat (consumerPos sb))"
  shows "ring_inv sz (consume n sb)" and "unread (consume n sb) + unat n = unread sb"
proof -
  from assms have "unat (consumerPos sb) + unat n < 2 ^ 64"
    unfolding ring_inv_def Let_def by (auto split: if_splits)
  then have c: "unat (consumerPos sb + n) = unat (consumerPos sb) + unat n"
    by (rule unat_add_nat)
  from assms show "ring_inv sz (consume n sb)"
    unfolding ring_inv_def consume_def Let_def by (auto simp: c split: if_splits)
  from assms show "unread (consume n sb) + unat n = unread sb"
    unfolding ring_inv_def unread_def consume_def Let_def by (auto simp: c split: if_splits)
qed

lemma ring_inv_stats:
  "ring_inv sz (sb\<lparr>cyclesProducerBlocked := a, numTimesProducerBlocked := b\<rparr>) = ring_inv sz sb"
  "unread (sb\<lparr>cyclesProducerBlocked := a, numTimesProducerBlocked := b\<rparr>) = unread sb"
  by (simp_all add: ring_inv_def unread_def)

lemma ring_inv_loop:
  assumes "ring_inv sz sb" and "reserveLoop sz nbytes blocking sb = Some (fl, sb')"
  shows "ring_inv sz sb' \<and> unread sb' = unread sb"
proof -
  have "ring_inv sz (snd (fl, sb')) \<and> unread (snd (fl, sb')) = unread sb"
  proof (rule reserveLoop_invariant [OF assms(2),
        where I = "\<lambda>s. ring_inv sz s \<and> unread s = unread sb"])
    show "ring_inv sz sb \<and> unread sb = unread sb"
      using assms(1) by simp
  next
    fix s ex s'
    assume "ring_inv sz s \<and> unread s = unread sb"
      and "reserveLoopBody sz nbytes blocking s = (ex, s')"
    then show "ring_inv sz s' \<and> unread s' = unread sb"
      using ring_inv_body [of sz s nbytes blocking ex s'] by simp
  qed
  then show ?thesis by simp
qed

lemma reserveSpaceInternal_cases:
  assumes "reserveSpaceInternal sz start stop nbytes blocking sb = Some (p, sb')"
  obtains s1 where "reserveLoop sz nbytes blocking sb = Some (False, s1)" "p = 0" "sb' = s1"
  | s1 where "reserveLoop sz nbytes blocking sb = Some (True, s1)" "p = producerPos s1"
      "sb' = s1\<lparr>cyclesProducerBlocked := cyclesProducerBlocked s1 + (stop - start),
                    numTimesProducerBlocked := numTimesProducerBlocked s1 + 1\<rparr>"
proof (cases "reserveLoop sz nbytes blocking sb")
  case None
  with assms show ?thesis
    by (simp add: reserveSpaceInternal_def)
next
  case (Some r)
  obtain fl s1 where r: "r = (fl, s1)"
    by (cases r) auto
  show ?thesis
  proof (cases fl)
    case True
    from Some r True assms have eqs: "p = producerPos s1 \<and>
        sb' = s1\<lparr>cyclesProducerBlocked := cyclesProducerBlocked s1 + (stop - start),
                    numTimesProducerBlocked := numTimesProducerBlocked s1 + 1\<rparr>"
      by (auto simp: reserveSpaceInternal_def Let_def)
    show ?thesis
    proof (rule that(2) [of s1])
      show "reserveLoop sz nbytes blocking sb = Some (True, s1)"
        using Some r True by simp
    qed (simp_all add: eqs)
  next
    case False
    from Some r False assms have eqs: "p = 0 \<and> sb' = s1"
      by (auto simp: reserveSpaceInternal_def Let_def)
    show ?thesis
    proof (rule that(1) [of s1])
      show "reserveLoop sz nbytes blocking sb = Some (False, s1)"
        using Some r False by simp
    qed (simp_all add: eqs)
  qed
qed

lemma ring_inv_reserve:
  assumes "ring_inv sz sb" and "reserveSpaceInternal sz start stop nbytes blocking sb = Some (p, sb')"
  shows "ring_inv sz sb' \<and> unread sb' = unread sb"
  using assms(2)
proof (cases rule: reserveSpaceInternal_cases)
  case (1 s1)
  with ring_inv_loop [OF assms(1) 1(1)] show ?thesis by simp
next
  case (2 s1)
  with ring_inv_loop [OF assms(1) 2(1)] show ?thesis by (simp add: ring_inv_stats)
qed


lemma reachable_invariant:
  assumes "reachable sz g"
  shows "ring_inv sz (buf g) \<and> committed g = consumed g + unread (buf g)"
  using assms
proof (induction rule: reachable.induct)
  case (fresh sb)
  then show ?case
    by (simp add: ring_inv_def unread_def Let_def word_le_nat_alt unat_gt_0)
next
  case (reserve_pass g nbytes blocking ex sb')
  then show ?case
    using ring_inv_body [of sz "buf g" nbytes blocking ex sb'] by simp
next
  case (reserve_return g start stop nbytes blocking p sb')
  then show ?case
    using ring_inv_reserve [of sz "buf g" start stop nbytes blocking p sb'] by simp
next
  case (commit_bytes g nbytes)
  then show ?case
    using ring_inv_commit [of sz "buf g" nbytes] by simp
next
  case (peek_consume g p bytesAvailable sb' nbytes)
  then have inv: "ring_inv sz (buf g)" and cnt: "committed g = consumed g + unread (buf g)"
    by simp_all
  note pk = ring_inv_peek [OF inv peek_consume.hyps(2)]
  from peek_consume.hyps(3) have "unat nbytes \<le> unat bytesAvailable"
    by (simp add: word_le_nat_alt)
  with pk(3) have le: "unat nbytes \<le> (if unat (producerPos sb') < unat (consumerPos sb')
                  then unat (endOfRecordedSpace sb') - unat (consumerPos sb')
                  else unat (producerPos sb') - unat (consumerPos sb'))"
    by simp
  from ring_inv_consume [OF pk(1) le] pk(2) cnt show ?case
    by simp
qed

subsection \<open>Returns of reserveSpaceInternal\<close>

lemma reserveLoop_done:
  assumes "nbytes < minFreeSpace sb"
  shows "reserveLoop sz nbytes blocking sb = Some (True, sb)"
proof -
  from assms have "\<not> minFreeSpace sb \<le> nbytes"
    by (simp add: not_le)
  then show ?thesis
    by (subst reserveLoop.simps) simp
qed

lemma reserveLoop_break:
  "minFreeSpace sb \<le> nbytes \<Longrightarrow> reserveLoopBody sz nbytes blocking sb = (LoopBreak, sb') \<Longrightarrow>
     reserveLoop sz nbytes blocking sb = Some (True, sb')"
  by (subst reserveLoop.simps) simp

lemma reserveLoop_null:
  "minFreeSpace sb \<le> nbytes \<Longrightarrow> reserveLoopBody sz nbytes blocking sb = (ReturnNullptr, sb') \<Longrightarrow>
     reserveLoop sz nbytes blocking sb = Some (False, sb')"
  by (subst reserveLoop.simps) simp

lemma reserveLoop_next:
  "minFreeSpace sb \<le> nbytes \<Longrightarrow> reserveLoopBody sz nbytes blocking sb = (LoopNext, sb') \<Longrightarrow>
     reserveLoop sz nbytes blocking sb = reserveLoop sz nbytes blocking sb'"
  by (subst reserveLoop.simps) simp

lemma reserveSpaceInternal_immediate:
  assumes "nbytes < minFreeSpace sb"
  shows "reserveSpaceInternal sz start stop nbytes blocking sb =
     Some (producerPos sb,
           sb\<lparr>cyclesProducerBlocked := cyclesProducerBlocked sb + (stop - start),
              numTimesProducerBlocked := numTimesProducerBlocked sb + 1\<rparr>)"
  by (simp add: reserveSpaceInternal_def reserveLoop_done [OF assms] Let_def)

lemma reserveSpaceInternal_nonnull:
  assumes "reserveSpaceInternal sz start stop nbytes blocking sb = Some (p, sb')" and "p \<noteq> 0"
  shows "numTimesProducerBlocked sb' = numTimesProducerBlocked sb + 1 \<and>
         cyclesProducerBlocked sb' = cyclesProducerBlocked sb + (stop - start)"
  using assms(1)
proof (cases rule: reserveSpaceInternal_cases)
  case (1 s1)
  with assms(2) show ?thesis by simp
next
  case (2 s1)
  with reserveLoop_stats [OF 2(1)] show ?thesis by simp
qed

text \<open>
  Claim C10. Every call of \<^verbatim>\<open>reserveSpaceInternal\<close> that returns a pointer other than
  the null pointer has incremented \<open>numTimesProducerBlocked\<close> by exactly one and has added
  the elapsed cycles \<open>stop - start\<close> to \<open>cyclesProducerBlocked\<close>. This holds also when
  the producer never waited: with \<open>minFreeSpace > nbytes\<close> on entry the loop is not
  entered, the buffer is returned as it was but for the two counters, and the call is
  counted all the same. The counter counts the calls of the slow path that return space.
\<close>

theorem reserve_return_counts_as_blocked:
  "(reserveSpaceInternal sz start stop nbytes blocking sb = Some (p, sb') \<and> p \<noteq> 0 \<longrightarrow>
      numTimesProducerBlocked sb' = numTimesProducerBlocked sb + 1 \<and>
      cyclesProducerBlocked sb' = cyclesProducerBlocked sb + (stop - start)) \<and>
   (nbytes < minFreeSpace sb \<longrightarrow>
      reserveSpaceInternal sz start stop nbytes blocking sb =
        Some (producerPos sb,
              sb\<lparr>cyclesProducerBlocked := cyclesProducerBlocked sb + (stop - start),
                 numTimesProducerBlocked := numTimesProducerBlocked sb + 1\<rparr>))"
proof (rule conjI)
  show "reserveSpaceInternal sz start stop nbytes blocking sb = Some (p, sb') \<and> p \<noteq> 0 \<longrightarrow>
      numTimesProducerBlocked sb' = numTimesProducerBlocked sb + 1 \<and>
      cyclesProducerBlocked sb' = cyclesProducerBlocked sb + (stop - start)"
    using reserveSpaceInternal_nonnull [of sz start stop nbytes blocking sb p sb'] by simp
next
  show "nbytes < minFreeSpace sb \<longrightarrow>
      reserveSpaceInternal sz start stop nbytes blocking sb =
        Some (producerPos sb,
              sb\<lparr>cyclesProducerBlocked := cyclesProducerBlocked sb + (stop - start),
                 numTimesProducerBlocked := numTimesProducerBlocked sb + 1\<rparr>)"
    using reserveSpaceInternal_immediate [of nbytes sb sz start stop blocking] by simp
qed

theorem reserve_return_counts_as_blocked_witness:
  "(8 :: 64 word) < minFreeSpace emptyBuffer \<and>
   reserveSpaceInternal 16 100 107 8 True emptyBuffer =
     Some (4096, emptyBuffer\<lparr>cyclesProducerBlocked := 7, numTimesProducerBlocked := 1\<rparr>) \<and>
   (4096 :: ptr) \<noteq> 0 \<and>
   numTimesProducerBlocked (emptyBuffer\<lparr>cyclesProducerBlocked := 7, numTimesProducerBlocked := 1\<rparr>) =
     numTimesProducerBlocked emptyBuffer + 1 \<and>
   cyclesProducerBlocked (emptyBuffer\<lparr>cyclesProducerBlocked := 7, numTimesProducerBlocked := 1\<rparr>) =
     cyclesProducerBlocked emptyBuffer + (107 - 100)"
  using reserve_return_counts_as_blocked [of 16 100 107 8 True emptyBuffer 4096
      "emptyBuffer\<lparr>cyclesProducerBlocked := 7, numTimesProducerBlocked := 1\<rparr>"]
  by (simp add: emptyBuffer_def)


lemma lacksFreeSpace_minFreeSpace:
  assumes "ring_inv sz sb" and "lacksFreeSpace sz nbytes sb"
  shows "minFreeSpace sb \<le> nbytes"
  using assms
  unfolding ring_inv_def lacksFreeSpace_def Let_def
  by (auto split: if_splits simp: word_le_nat_alt word_less_nat_alt unat_sub_nat unat_add_nat)

lemma lacksFreeSpace_body:
  assumes "ring_inv sz sb" and "lacksFreeSpace sz nbytes sb"
  shows "fst (reserveLoopBody sz nbytes False sb) = ReturnNullptr"
  using assms
  unfolding ring_inv_def lacksFreeSpace_def reserveLoopBody_def endOfIteration_def Let_def
  by (auto split: if_splits simp: word_le_nat_alt word_less_nat_alt unat_sub_nat unat_add_nat)

text \<open>
  Claim C4, as amended. When a well-formed ring lacks contiguous free space for \<open>nbytes\<close>
  and \<^verbatim>\<open>reserveSpaceInternal\<close> is called in non-blocking mode, the call returns the null
  pointer after one pass through the loop body, and it leaves \<open>numTimesProducerBlocked\<close>
  and \<open>cyclesProducerBlocked\<close> as they were: the \<^verbatim>\<open>return nullptr\<close> precedes the statements
  that update the counters.
\<close>

theorem nonblocking_reserve_without_space:
  assumes "ring_inv sz sb" and "lacksFreeSpace sz nbytes sb"
  shows "reserveSpaceInternal sz start stop nbytes False sb =
           Some (0, snd (reserveLoopBody sz nbytes False sb)) \<and>
         numTimesProducerBlocked (snd (reserveLoopBody sz nbytes False sb)) =
           numTimesProducerBlocked sb \<and>
         cyclesProducerBlocked (snd (reserveLoopBody sz nbytes False sb)) =
           cyclesProducerBlocked sb"
proof -
  obtain ex sb' where body: "reserveLoopBody sz nbytes False sb = (ex, sb')"
    by (cases "reserveLoopBody sz nbytes False sb") auto
  with lacksFreeSpace_body [OF assms] have ex: "ex = ReturnNullptr"
    by simp
  from lacksFreeSpace_minFreeSpace [OF assms] body ex
  have "reserveLoop sz nbytes False sb = Some (False, sb')"
    by (simp add: reserveLoop_null)
  then have "reserveSpaceInternal sz start stop nbytes False sb = Some (0, sb')"
    by (simp add: reserveSpaceInternal_def)
  with body reserveLoopBody_stats [OF body] show ?thesis
    by simp
qed

theorem nonblocking_reserve_without_space_witness:
  "ring_inv 16 fullBuffer \<and> lacksFreeSpace 16 8 fullBuffer \<and>
   reserveSpaceInternal 16 100 107 8 False fullBuffer =
     Some (0, snd (reserveLoopBody 16 8 False fullBuffer)) \<and>
   numTimesProducerBlocked (snd (reserveLoopBody 16 8 False fullBuffer)) = 3 \<and>
   cyclesProducerBlocked (snd (reserveLoopBody 16 8 False fullBuffer)) = 21"
proof -
  have inv: "ring_inv 16 fullBuffer"
    by (simp add: ring_inv_def fullBuffer_def)
  have lack: "lacksFreeSpace 16 8 fullBuffer"
    by (simp add: lacksFreeSpace_def fullBuffer_def)
  from nonblocking_reserve_without_space [OF inv lack, of 100 107] inv lack show ?thesis
    by (simp add: fullBuffer_def)
qed

text \<open>
  Claim C4 as stated fails: on the full ring \<open>fullBuffer\<close> a non-blocking request for 8
  bytes returns the null pointer, and \<open>numTimesProducerBlocked\<close> is 3 before the call and
  3 after it.
\<close>

theorem nonblocking_null_leaves_counter:
  "reserveSpaceInternal 16 100 107 8 False fullBuffer =
     Some (0, fullBuffer\<lparr>endOfRecordedSpace := 4111\<rparr>) \<and>
   numTimesProducerBlocked fullBuffer = 3 \<and>
   numTimesProducerBlocked (fullBuffer\<lparr>endOfRecordedSpace := 4111\<rparr>) = 3 \<and>
   numTimesProducerBlocked (fullBuffer\<lparr>endOfRecordedSpace := 4111\<rparr>) \<noteq>
     numTimesProducerBlocked fullBuffer + 1"
proof -
  have "reserveLoopBody 16 8 False fullBuffer = (ReturnNullptr, fullBuffer\<lparr>endOfRecordedSpace := 4111\<rparr>)"
    by (simp add: reserveLoopBody_def endOfIteration_def fullBuffer_def Let_def)
  then have "reserveLoop 16 8 False fullBuffer = Some (False, fullBuffer\<lparr>endOfRecordedSpace := 4111\<rparr>)"
    by (intro reserveLoop_null) (simp_all add: fullBuffer_def)
  then show ?thesis
    by (simp add: reserveSpaceInternal_def fullBuffer_def)
qed


lemma spin_body:
  assumes "consumerPos s = storage s" and "storage s \<le> producerPos s"
    and "storage s + sz - producerPos s \<le> nbytes"
  shows "reserveLoopBody sz nbytes blocking s =
     (if blocking then LoopNext else ReturnNullptr,
      s\<lparr>minFreeSpace := storage s + sz - producerPos s, endOfRecordedSpace := producerPos s\<rparr>)"
proof -
  from assms(3) have "\<not> nbytes < storage s + sz - producerPos s"
    by (simp add: not_less)
  with assms show ?thesis
    by (simp add: reserveLoopBody_def endOfIteration_def Let_def)
qed

lemma reserve_spins_at_storage:
  assumes "consumerPos sb = storage sb" and "storage sb \<le> producerPos sb"
    and "storage sb + sz - producerPos sb \<le> nbytes" and "minFreeSpace sb \<le> nbytes"
  shows "reserveSpaceInternal sz start stop nbytes True sb = None"
    and "reserveSpaceInternal sz start stop nbytes False sb =
           Some (0, sb\<lparr>minFreeSpace := storage sb + sz - producerPos sb,
                       endOfRecordedSpace := producerPos sb\<rparr>)"
proof -
  have "reserveLoop sz nbytes True sb = None"
  proof (rule reserveLoop_spins [where I = "\<lambda>s. consumerPos s = storage s \<and>
        storage s \<le> producerPos s \<and> storage s + sz - producerPos s \<le> nbytes \<and>
        minFreeSpace s \<le> nbytes"])
    show "consumerPos sb = storage sb \<and> storage sb \<le> producerPos sb \<and>
        storage sb + sz - producerPos sb \<le> nbytes \<and> minFreeSpace sb \<le> nbytes"
      using assms by simp
  next
    fix s :: StagingBuffer
    assume I: "consumerPos s = storage s \<and> storage s \<le> producerPos s \<and>
        storage s + sz - producerPos s \<le> nbytes \<and> minFreeSpace s \<le> nbytes"
    then have "reserveLoopBody sz nbytes True s =
        (LoopNext, s\<lparr>minFreeSpace := storage s + sz - producerPos s,
                       endOfRecordedSpace := producerPos s\<rparr>)"
      using spin_body [of s sz nbytes True] by simp
    with I show "minFreeSpace s \<le> nbytes \<and>
        (\<exists>s'. reserveLoopBody sz nbytes True s = (LoopNext, s') \<and>
           (consumerPos s' = storage s' \<and> storage s' \<le> producerPos s' \<and>
            storage s' + sz - producerPos s' \<le> nbytes \<and> minFreeSpace s' \<le> nbytes))"
      by simp
  qed
  then show "reserveSpaceInternal sz start stop nbytes True sb = None"
    by (simp add: reserveSpaceInternal_def)
next
  from assms have "reserveLoopBody sz nbytes False sb =
        (ReturnNullptr, sb\<lparr>minFreeSpace := storage sb + sz - producerPos sb,
                       endOfRecordedSpace := producerPos sb\<rparr>)"
    using spin_body [of sb sz nbytes False] by simp
  with assms(4) have "reserveLoop sz nbytes False sb =
      Some (False, sb\<lparr>minFreeSpace := storage sb + sz - producerPos sb,
                       endOfRecordedSpace := producerPos sb\<rparr>)"
    by (simp add: reserveLoop_null)
  then show "reserveSpaceInternal sz start stop nbytes False sb =
           Some (0, sb\<lparr>minFreeSpace := storage sb + sz - producerPos sb,
                       endOfRecordedSpace := producerPos sb\<rparr>)"
    by (simp add: reserveSpaceInternal_def)
qed

lemma word_pred_less: "sz \<noteq> 0 \<Longrightarrow> sz - 1 < sz"
  for sz :: "64 word"
  by (simp add: word_less_nat_alt unat_minus_one unat_gt_0)

lemma reserve_all_but_one:
  assumes "sz \<noteq> 0" and "producerPos sb = storage sb" and "consumerPos sb = storage sb"
    and "minFreeSpace sb \<le> sz"
  shows "reserveSpaceInternal sz start stop (sz - 1) blocking sb =
     Some (producerPos sb,
           sb\<lparr>minFreeSpace := sz,
              cyclesProducerBlocked := cyclesProducerBlocked sb + (stop - start),
              numTimesProducerBlocked := numTimesProducerBlocked sb + 1\<rparr>)"
proof (cases "sz - 1 < minFreeSpace sb")
  case True
  with word_pred_less [OF assms(1)] assms(4) have "minFreeSpace sb = sz"
    by unat_arith
  then have "sb\<lparr>minFreeSpace := sz\<rparr> = sb"
    by simp
  with reserveSpaceInternal_immediate [OF True, of sz start stop blocking] show ?thesis
    by simp
next
  case False
  then have le: "minFreeSpace sb \<le> sz - 1"
    by (simp add: not_less)
  from assms(2,3) word_pred_less [OF assms(1)]
  have "reserveLoopBody sz (sz - 1) blocking sb = (LoopBreak, sb\<lparr>minFreeSpace := sz\<rparr>)"
    by (simp add: reserveLoopBody_def Let_def)
  with le have "reserveLoop sz (sz - 1) blocking sb = Some (True, sb\<lparr>minFreeSpace := sz\<rparr>)"
    by (simp add: reserveLoop_break)
  with assms(2) show ?thesis
    by (simp add: reserveSpaceInternal_def Let_def)
qed

text \<open>
  Claim C2. In an empty staging buffer with both positions at \<open>storage\<close> (a non-null
  address, the cached \<open>minFreeSpace\<close> not above the size of the array), a request for
  \<open>STAGING_BUFFER_SIZE - 1\<close> bytes returns \<open>producerPos\<close>, which is not null, and does
  not wrap: \<open>producerPos\<close> and \<open>endOfRecordedSpace\<close> are as before, only \<open>minFreeSpace\<close>
  and the two counters are written. A request for \<open>STAGING_BUFFER_SIZE\<close> bytes never
  returns in blocking mode while the consumer does not advance, and returns the null
  pointer in non-blocking mode.
\<close>

theorem reserve_boundary_sizes:
  assumes "sz \<noteq> 0" and "storage sb \<noteq> 0"
    and "producerPos sb = storage sb" and "consumerPos sb = storage sb"
    and "minFreeSpace sb \<le> sz"
  shows "reserveSpaceInternal sz start stop (sz - 1) blocking sb =
           Some (producerPos sb,
                 sb\<lparr>minFreeSpace := sz,
                    cyclesProducerBlocked := cyclesProducerBlocked sb + (stop - start),
                    numTimesProducerBlocked := numTimesProducerBlocked sb + 1\<rparr>) \<and>
         producerPos sb \<noteq> 0 \<and>
         reserveSpaceInternal sz start stop sz True sb = None \<and>
         reserveSpaceInternal sz start stop sz False sb =
           Some (0, sb\<lparr>minFreeSpace := sz, endOfRecordedSpace := storage sb\<rparr>)"
proof -
  have tail: "storage sb + sz - producerPos sb \<le> sz"
    using assms(3) by simp
  have le: "storage sb \<le> producerPos sb"
    using assms(3) by simp
  note spin = reserve_spins_at_storage [OF assms(4) le tail assms(5), of start stop]
  from reserve_all_but_one [OF assms(1) assms(3) assms(4) assms(5), of start stop blocking]
    spin assms(2,3)
  show ?thesis
    by simp
qed

theorem reserve_boundary_sizes_witness:
  "(16 :: 64 word) \<noteq> 0 \<and> storage emptyBuffer \<noteq> 0 \<and>
   producerPos emptyBuffer = storage emptyBuffer \<and>
   consumerPos emptyBuffer = storage emptyBuffer \<and>
   minFreeSpace emptyBuffer \<le> 16 \<and>
   reserveSpaceInternal 16 100 107 15 True emptyBuffer =
     Some (4096, emptyBuffer\<lparr>cyclesProducerBlocked := 7, numTimesProducerBlocked := 1\<rparr>) \<and>
   reserveSpaceInternal 16 100 107 16 True emptyBuffer = None \<and>
   reserveSpaceInternal 16 100 107 16 False emptyBuffer =
     Some (0, emptyBuffer\<lparr>endOfRecordedSpace := 4096\<rparr>)"
  using reserve_boundary_sizes [of 16 emptyBuffer 100 107 True]
  by (simp add: emptyBuffer_def)


lemma body_wrap:
  assumes "reserveLoopBody sz nbytes blocking sb = (ex, sb')"
  shows "(producerPos sb' \<noteq> producerPos sb \<longrightarrow>
            consumerPos sb \<noteq> storage sb \<and> producerPos sb' = storage sb \<and>
            producerPos sb' \<noteq> consumerPos sb') \<and>
         (consumerPos sb = storage sb \<longrightarrow> producerPos sb' = producerPos sb)"
  using assms
  by (auto simp: reserveLoopBody_def endOfIteration_def Let_def split: if_splits)

lemma peek_of_empty:
  assumes "ring_inv sz sb" and "unread sb = 0" and "peek sb = (p, n, sb')"
  shows "n = 0 \<and> producerPos sb' = consumerPos sb'"
proof (cases "producerPos sb < consumerPos sb")
  case False
  then have "unat (consumerPos sb) \<le> unat (producerPos sb)"
    by (simp add: word_less_nat_alt)
  with assms(2) have "unat (producerPos sb) = unat (consumerPos sb)"
    by (simp add: unread_def Let_def)
  then have "producerPos sb = consumerPos sb"
    by (rule unat_eqD)
  with assms(3) show ?thesis
    by (auto simp: peek_def Let_def)
next
  case True
  then have lt: "\<not> unat (consumerPos sb) \<le> unat (producerPos sb)"
    by (simp add: word_less_nat_alt)
  with assms(1) have "unat (consumerPos sb) \<le> unat (endOfRecordedSpace sb)"
    and "unat (storage sb) \<le> unat (producerPos sb)"
    by (simp_all add: ring_inv_def Let_def)
  with assms(2) lt have "unat (endOfRecordedSpace sb) = unat (consumerPos sb)"
    and "unat (producerPos sb) = unat (storage sb)"
    by (simp_all add: unread_def Let_def)
  then have "endOfRecordedSpace sb = consumerPos sb" and "producerPos sb = storage sb"
    by (simp_all add: unat_eqD)
  with True assms(3) show ?thesis
    by (auto simp: peek_def Let_def)
qed

lemma equal_positions_unread:
  "producerPos sb = consumerPos sb \<Longrightarrow> unread sb = 0"
  by (simp add: unread_def)

lemma tail_bounds_minFreeSpace:
  assumes "ring_inv sz sb" and "consumerPos sb = storage sb"
    and "storage sb + sz - producerPos sb \<le> nbytes"
  shows "storage sb \<le> producerPos sb \<and> minFreeSpace sb \<le> nbytes"
  using assms
  unfolding ring_inv_def Let_def
  by (auto split: if_splits simp: word_le_nat_alt word_less_nat_alt unat_sub_nat unat_add_nat)

text \<open>
  Claim C1, as amended. In every run of a staging buffer, through all wraps:
  when \<open>producerPos = consumerPos\<close> the buffer is empty (every committed byte has been
  consumed); when the buffer is empty, peek reports 0 bytes and leaves
  \<open>producerPos = consumerPos\<close> (it rolls \<open>consumerPos\<close> over where the producer has
  wrapped). A pass through the loop body of \<^verbatim>\<open>reserveSpaceInternal\<close> that moves
  \<open>producerPos\<close> moves it to \<open>storage\<close>, and only when \<open>consumerPos\<close> is not \<open>storage\<close>, so
  a wrap never makes the two positions equal; with \<open>consumerPos\<close> at \<open>storage\<close> the producer does not
  wrap: when the bytes up to the end of the array do not suffice, the call keeps
  spinning in blocking mode (it never returns while the consumer does not advance) and
  returns the null pointer in non-blocking mode, with \<open>producerPos\<close> unchanged.
\<close>

theorem equal_positions_mean_empty:
  assumes "reachable sz g"
  shows "(producerPos (buf g) = consumerPos (buf g) \<longrightarrow> committed g = consumed g) \<and>
     (committed g = consumed g \<longrightarrow>
        (case peek (buf g) of (p, n, sb') \<Rightarrow> n = 0 \<and> producerPos sb' = consumerPos sb')) \<and>
     (case reserveLoopBody sz nbytes blocking (buf g) of (ex, sb') \<Rightarrow>
        (producerPos sb' \<noteq> producerPos (buf g) \<longrightarrow>
           consumerPos (buf g) \<noteq> storage (buf g) \<and> producerPos sb' = storage (buf g) \<and>
           producerPos sb' \<noteq> consumerPos sb') \<and>
        (consumerPos (buf g) = storage (buf g) \<longrightarrow> producerPos sb' = producerPos (buf g))) \<and>
     (consumerPos (buf g) = storage (buf g) \<and>
      storage (buf g) + sz - producerPos (buf g) \<le> nbytes \<longrightarrow>
        reserveSpaceInternal sz start stop nbytes True (buf g) = None \<and>
        reserveSpaceInternal sz start stop nbytes False (buf g) =
          Some (0, (buf g)\<lparr>minFreeSpace := storage (buf g) + sz - producerPos (buf g),
                            endOfRecordedSpace := producerPos (buf g)\<rparr>))"
proof -
  from reachable_invariant [OF assms]
  have inv: "ring_inv sz (buf g)" and cnt: "committed g = consumed g + unread (buf g)"
    by simp_all
  have equal: "producerPos (buf g) = consumerPos (buf g) \<longrightarrow> committed g = consumed g"
    using cnt equal_positions_unread [of "buf g"] by simp
  have empty: "committed g = consumed g \<longrightarrow>
        (case peek (buf g) of (p, n, sb') \<Rightarrow> n = 0 \<and> producerPos sb' = consumerPos sb')"
  proof
    assume "committed g = consumed g"
    with cnt have z: "unread (buf g) = 0" by simp
    obtain p n sb' where pk: "peek (buf g) = (p, n, sb')"
      by (cases "peek (buf g)") auto
    from peek_of_empty [OF inv z pk] pk
    show "case peek (buf g) of (p, n, sb') \<Rightarrow> n = 0 \<and> producerPos sb' = consumerPos sb'"
      by simp
  qed
  obtain ex sb1 where body: "reserveLoopBody sz nbytes blocking (buf g) = (ex, sb1)"
    by (cases "reserveLoopBody sz nbytes blocking (buf g)") auto
  have wrap: "case reserveLoopBody sz nbytes blocking (buf g) of (ex, sb') \<Rightarrow>
        (producerPos sb' \<noteq> producerPos (buf g) \<longrightarrow>
           consumerPos (buf g) \<noteq> storage (buf g) \<and> producerPos sb' = storage (buf g) \<and>
           producerPos sb' \<noteq> consumerPos sb') \<and>
        (consumerPos (buf g) = storage (buf g) \<longrightarrow> producerPos sb' = producerPos (buf g))"
    unfolding body prod.case by (rule body_wrap [OF body])
  have spin: "consumerPos (buf g) = storage (buf g) \<and>
      storage (buf g) + sz - producerPos (buf g) \<le> nbytes \<longrightarrow>
        reserveSpaceInternal sz start stop nbytes True (buf g) = None \<and>
        reserveSpaceInternal sz start stop nbytes False (buf g) =
          Some (0, (buf g)\<lparr>minFreeSpace := storage (buf g) + sz - producerPos (buf g),
                            endOfRecordedSpace := producerPos (buf g)\<rparr>)"
  proof
    assume a: "consumerPos (buf g) = storage (buf g) \<and>
      storage (buf g) + sz - producerPos (buf g) \<le> nbytes"
    then have c: "consumerPos (buf g) = storage (buf g)"
      and t: "storage (buf g) + sz - producerPos (buf g) \<le> nbytes"
      by simp_all
    from tail_bounds_minFreeSpace [OF inv c t]
    have le: "storage (buf g) \<le> producerPos (buf g)" and m: "minFreeSpace (buf g) \<le> nbytes"
      by simp_all
    from reserve_spins_at_storage [OF c le t m, of start stop]
    show "reserveSpaceInternal sz start stop nbytes True (buf g) = None \<and>
        reserveSpaceInternal sz start stop nbytes False (buf g) =
          Some (0, (buf g)\<lparr>minFreeSpace := storage (buf g) + sz - producerPos (buf g),
                            endOfRecordedSpace := producerPos (buf g)\<rparr>)"
      by simp
  qed
  from equal empty wrap spin show ?thesis
    by (intro conjI)
qed

lemma reachable_drainedRun: "reachable 16 drainedRun"
proof -
  have r0: "reachable 16 \<lparr>buf = emptyBuffer, committed = 0, consumed = 0\<rparr>"
    by (rule reachable.fresh) (simp_all add: emptyBuffer_def)
  have "reserveSpaceInternal 16 100 107 10 True emptyBuffer =
      Some (4096, emptyBuffer\<lparr>cyclesProducerBlocked := 7, numTimesProducerBlocked := 1\<rparr>)"
    using reserveSpaceInternal_immediate [of 10 emptyBuffer 16 100 107 True]
    by (simp add: emptyBuffer_def)
  from reachable.reserve_return [OF r0, of 100 107 10 True 4096
      "emptyBuffer\<lparr>cyclesProducerBlocked := 7, numTimesProducerBlocked := 1\<rparr>"] this
  have r1: "reachable 16 \<lparr>buf = emptyBuffer\<lparr>cyclesProducerBlocked := 7,
      numTimesProducerBlocked := 1\<rparr>, committed = 0, consumed = 0\<rparr>"
    by simp
  from reachable.commit_bytes [OF r1, of 10]
  have r2: "reachable 16 \<lparr>buf = emptyBuffer\<lparr>producerPos := 4106, minFreeSpace := 6,
      cyclesProducerBlocked := 7, numTimesProducerBlocked := 1, numAllocations := 1\<rparr>,
      committed = 10, consumed = 0\<rparr>"
    by (simp add: emptyBuffer_def commit_def)
  have "peek (emptyBuffer\<lparr>producerPos := 4106, minFreeSpace := 6,
      cyclesProducerBlocked := 7, numTimesProducerBlocked := 1, numAllocations := 1\<rparr>) =
    (4096, 10, emptyBuffer\<lparr>producerPos := 4106, minFreeSpace := 6,
      cyclesProducerBlocked := 7, numTimesProducerBlocked := 1, numAllocations := 1\<rparr>)"
    by (simp add: peek_def emptyBuffer_def)
  from reachable.peek_consume [OF r2, of 4096 10 _ 10] this
  show ?thesis
    by (simp add: emptyBuffer_def consume_def drainedRun_def)
qed

lemma reachable_wrappedEmptyRun: "reachable 16 wrappedEmptyRun"
proof -
  have body: "reserveLoopBody 16 8 True (buf drainedRun) =
      (LoopNext, (buf drainedRun)\<lparr>producerPos := 4096, endOfRecordedSpace := 4106,
         minFreeSpace := 10\<rparr>)"
    by (simp add: reserveLoopBody_def endOfIteration_def drainedRun_def Let_def)
  have "reserveLoop 16 8 True (buf drainedRun) =
      reserveLoop 16 8 True ((buf drainedRun)\<lparr>producerPos := 4096, endOfRecordedSpace := 4106,
         minFreeSpace := 10\<rparr>)"
    by (rule reserveLoop_next [OF _ body]) (simp add: drainedRun_def)
  also have "\<dots> = Some (True, (buf drainedRun)\<lparr>producerPos := 4096, endOfRecordedSpace := 4106,
         minFreeSpace := 10\<rparr>)"
    by (rule reserveLoop_done) simp
  finally have "reserveSpaceInternal 16 107 114 8 True (buf drainedRun) =
      Some (4096, buf wrappedEmptyRun)"
    by (simp add: reserveSpaceInternal_def drainedRun_def wrappedEmptyRun_def)
  from reachable.reserve_return [OF reachable_drainedRun this] show ?thesis
    by (simp add: drainedRun_def wrappedEmptyRun_def)
qed

text \<open>
  Claim C1 as stated fails in one direction: an empty buffer need not have
  \<open>producerPos = consumerPos\<close>. In the run \<open>wrappedEmptyRun\<close> all 10 committed bytes have
  been consumed, and the producer, reserving 8 more bytes, has wrapped to \<open>storage\<close>
  while \<open>consumerPos\<close> is still 10 bytes into the array.
\<close>

theorem empty_with_distinct_positions:
  "reachable 16 wrappedEmptyRun \<and>
   committed wrappedEmptyRun = consumed wrappedEmptyRun \<and>
   producerPos (buf wrappedEmptyRun) \<noteq> consumerPos (buf wrappedEmptyRun)"
  using reachable_wrappedEmptyRun by (simp add: wrappedEmptyRun_def)


theorem equal_positions_mean_empty_witness:
  "reachable 16 drainedRun \<and>
   producerPos (buf drainedRun) = consumerPos (buf drainedRun) \<and>
   committed drainedRun = consumed drainedRun \<and>
   peek (buf drainedRun) = (4106, 0, buf drainedRun) \<and>
   reserveLoopBody 16 8 True (buf drainedRun) =
     (LoopNext, (buf drainedRun)\<lparr>producerPos := 4096, endOfRecordedSpace := 4106,
        minFreeSpace := 10\<rparr>) \<and>
   consumerPos (buf drainedRun) \<noteq> storage (buf drainedRun) \<and>
   reachable 16 \<lparr>buf = emptyBuffer, committed = 0, consumed = 0\<rparr> \<and>
   consumerPos emptyBuffer = storage emptyBuffer \<and>
   storage emptyBuffer + 16 - producerPos emptyBuffer \<le> 16 \<and>
   reserveLoopBody 16 16 True emptyBuffer =
     (LoopNext, emptyBuffer\<lparr>endOfRecordedSpace := 4096\<rparr>) \<and>
   reserveSpaceInternal 16 100 107 16 True emptyBuffer = None \<and>
   reserveSpaceInternal 16 100 107 16 False emptyBuffer =
     Some (0, emptyBuffer\<lparr>endOfRecordedSpace := 4096\<rparr>)"
proof -
  have r0: "reachable 16 \<lparr>buf = emptyBuffer, committed = 0, consumed = 0\<rparr>"
    by (rule reachable.fresh) (simp_all add: emptyBuffer_def)
  have b1: "reserveLoopBody 16 8 True (buf drainedRun) =
     (LoopNext, (buf drainedRun)\<lparr>producerPos := 4096, endOfRecordedSpace := 4106,
        minFreeSpace := 10\<rparr>)"
    by (simp add: reserveLoopBody_def endOfIteration_def drainedRun_def Let_def)
  have b2: "reserveLoopBody 16 16 True emptyBuffer =
     (LoopNext, emptyBuffer\<lparr>endOfRecordedSpace := 4096\<rparr>)"
    by (simp add: reserveLoopBody_def endOfIteration_def emptyBuffer_def Let_def)
  have pk: "peek (buf drainedRun) = (4106, 0, buf drainedRun)"
    by (simp add: peek_def drainedRun_def)
  have s: "storage emptyBuffer + 16 - producerPos emptyBuffer = 16"
    "consumerPos emptyBuffer = storage emptyBuffer"
    "emptyBuffer\<lparr>minFreeSpace := 16, endOfRecordedSpace := producerPos emptyBuffer\<rparr> =
       emptyBuffer\<lparr>endOfRecordedSpace := 4096\<rparr>"
    by (simp_all add: emptyBuffer_def)
  have d: "producerPos (buf drainedRun) = consumerPos (buf drainedRun)"
    "committed drainedRun = consumed drainedRun"
    "consumerPos (buf drainedRun) \<noteq> storage (buf drainedRun)"
    by (simp_all add: drainedRun_def)
  from equal_positions_mean_empty [OF r0, of 16 True 100 107]
  have "reserveSpaceInternal 16 100 107 16 True emptyBuffer = None \<and>
   reserveSpaceInternal 16 100 107 16 False emptyBuffer =
     Some (0, emptyBuffer\<lparr>endOfRecordedSpace := 4096\<rparr>)"
    by (simp add: s)
  with equal_positions_mean_empty [OF reachable_drainedRun, of 8 True 100 107]
    reachable_drainedRun r0 b1 b2 pk s d
  show ?thesis
    by simp
qed

section \<open>Properties of the compression thread\<close>

subsection \<open>One write in flight\<close>

lemma aio_run_append:
  "aio_run ph (es @ es') = (case aio_run ph es of None \<Rightarrow> None | Some ph' \<Rightarrow> aio_run ph' es')"
  by (induction es arbitrary: ph) (auto split: option.splits)

lemma issueWrite_protocol:
  assumes "issueWrite cfg b rl = (es, rl')"
  shows "aio_run Idle es = Some Running \<and> hasOutstandingOperation rl'"
  using assms by (auto simp: issueWrite_def Let_def split: prod.splits)

lemma finishIO_protocol:
  assumes "finishIO rl = (es, rl')"
  shows "aio_run Completed es = Some Idle \<and> \<not> hasOutstandingOperation rl'"
  using assms by (auto simp: finishIO_def)

lemma sleepOnLowWork_protocol:
  assumes "sleepOnLowWork cfg sc rl = (es, rl')" and "hasOutstandingOperation rl"
  shows "aio_run Running es = Some Running \<and> hasOutstandingOperation rl'"
  using assms by (auto simp: sleepOnLowWork_def split: if_splits)

text \<open>
  Unless \<^verbatim>\<open>aio_suspend\<close> is interrupted with the write still in progress, the wait ends
  either with \<^verbatim>\<open>continue\<close> and the write in progress, or with the write completed.
\<close>

lemma waitForWrite_protocol:
  assumes "waitForWrite cfg sc rl = (es, rl', continue)" and "hasOutstandingOperation rl"
    and "\<not> (aioSuspendInterrupted sc \<and> aioStillInProgress sc)"
  shows "aio_run Running es = Some (if continue then Running else Completed) \<and>
         hasOutstandingOperation rl'"
proof (cases "aioInProgress sc \<and> \<not> outputBufferFull rl")
  case False
  with assms show ?thesis
    by (auto simp: waitForWrite_def split: if_splits)
next
  case True
  obtain slept rl1 where sl: "sleepOnLowWork cfg sc rl = (slept, rl1)"
    by (cases "sleepOnLowWork cfg sc rl") auto
  note proto = sleepOnLowWork_protocol [OF sl assms(2)]
  show ?thesis
  proof (cases "aioStillInProgress sc")
    case still: True
    with True sl assms(1) have "es = slept" "rl' = rl1" "continue"
      by (simp_all add: waitForWrite_def)
    with proto show ?thesis by simp
  next
    case completed: False
    with True sl assms(1) have "es = slept @ [WriteCompleted]" "rl' = rl1" "\<not> continue"
      by (simp_all add: waitForWrite_def)
    with proto show ?thesis by (simp add: aio_run_append)
  qed
qed

lemma awaitOutstanding_protocol:
  assumes "awaitOutstanding cfg sc rl = (es, rl', continue)"
    and "\<not> (aioSuspendInterrupted sc \<and> aioStillInProgress sc)"
  shows "aio_run (flagPhase rl) es = Some (flagPhase rl') \<and>
         (\<not> continue \<longrightarrow> \<not> hasOutstandingOperation rl')"
proof (cases "hasOutstandingOperation rl")
  case False
  with assms(1) show ?thesis
    by (auto simp: awaitOutstanding_def flagPhase_def)
next
  case outstanding: True
  obtain waited rl1 cont where w: "waitForWrite cfg sc rl = (waited, rl1, cont)"
    by (cases "waitForWrite cfg sc rl") auto
  note wt = waitForWrite_protocol [OF w outstanding assms(2)]
  show ?thesis
  proof (cases cont)
    case True
    with outstanding w assms(1) have "es = waited" "rl' = rl1" "continue"
      by (simp_all add: awaitOutstanding_def)
    with wt True outstanding show ?thesis
      by (simp add: flagPhase_def)
  next
    case False
    obtain reaped rl2 where fin: "finishIO rl1 = (reaped, rl2)"
      by (cases "finishIO rl1") auto
    with False outstanding w assms(1) have "es = waited @ reaped" "rl' = rl2" "\<not> continue"
      by (simp_all add: awaitOutstanding_def)
    with wt False finishIO_protocol [OF fin] outstanding show ?thesis
      by (simp add: aio_run_append flagPhase_def)
  qed
qed

lemma outputPhase_protocol:
  assumes "outputPhase cfg sc rl = (es, rl')"
    and "\<not> (aioSuspendInterrupted sc \<and> aioStillInProgress sc)"
  shows "aio_run (flagPhase rl) es = Some (flagPhase rl')"
proof (cases "encodedBytes sc = 0")
  case True
  with assms(1) show ?thesis
    by (auto simp: outputPhase_def flagPhase_def split: if_splits)
next
  case nonzero: False
  obtain awaited rl1 cont where aw: "awaitOutstanding cfg sc rl = (awaited, rl1, cont)"
    by (cases "awaitOutstanding cfg sc rl") auto
  note proto = awaitOutstanding_protocol [OF aw assms(2)]
  show ?thesis
  proof (cases cont)
    case True
    with nonzero aw assms(1) have "es = awaited" "rl' = rl1"
      by (simp_all add: outputPhase_def)
    with proto show ?thesis by simp
  next
    case False
    obtain issued rl2 where iss: "issueWrite cfg (encodedBytes sc) rl1 = (issued, rl2)"
      by (cases "issueWrite cfg (encodedBytes sc) rl1") auto
    with False nonzero aw assms(1) have "es = awaited @ issued" "rl' = rl2"
      by (simp_all add: outputPhase_def)
    with proto False issueWrite_protocol [OF iss] show ?thesis
      by (simp add: aio_run_append flagPhase_def)
  qed
qed

lemma drainAtExit_protocol:
  assumes "drainAtExit rl = (es, rl')"
  shows "aio_run (flagPhase rl) es = Some Idle \<and> \<not> hasOutstandingOperation rl'"
  using assms by (auto simp: drainAtExit_def flagPhase_def split: if_splits)

lemma flagPhase_updates [simp]:
  "flagPhase (rl\<lparr>compressionThreadShouldExit := a, syncRequested := b\<rparr>) = flagPhase rl"
  "flagPhase (afterScan sc rl) = flagPhase rl"
  by (simp_all add: flagPhase_def afterScan_def)

lemma compressionThreadMain_protocol:
  assumes "compressionThreadMain cfg scs rl = (es, rl', finished)"
    and "\<forall>sc \<in> set scs. \<not> (aioSuspendInterrupted sc \<and> aioStillInProgress sc)"
  shows "aio_run (flagPhase rl) es = Some (flagPhase rl') \<and>
         (finished \<longrightarrow> \<not> hasOutstandingOperation rl')"
  using assms
proof (induction scs arbitrary: rl es rl' finished)
  case Nil
  then show ?case by simp
next
  case (Cons sc scs)
  define rl0 where "rl0 = rl\<lparr>compressionThreadShouldExit :=
      (compressionThreadShouldExit rl \<or> exitRequested sc),
      syncRequested := (syncRequested rl \<or> syncCalled sc)\<rparr>"
  have ph0: "flagPhase rl0 = flagPhase rl"
    by (simp add: rl0_def)
  from Cons.prems(2) have here: "\<not> (aioSuspendInterrupted sc \<and> aioStillInProgress sc)"
    and later: "\<forall>sc \<in> set scs. \<not> (aioSuspendInterrupted sc \<and> aioStillInProgress sc)"
    by simp_all
  show ?case
  proof (cases "compressionThreadShouldExit rl0")
    case True
    obtain drained rl1 where dr: "drainAtExit rl0 = (drained, rl1)"
      by (cases "drainAtExit rl0") auto
    with True Cons.prems(1) have "es = drained" "rl' = rl1" "finished"
      by (simp_all add: rl0_def [symmetric] Let_def)
    with drainAtExit_protocol [OF dr] ph0 show ?thesis
      by (simp add: flagPhase_def)
  next
    case False
    obtain events rl1 where ph: "outputPhase cfg sc (afterScan sc rl0) = (events, rl1)"
      by (cases "outputPhase cfg sc (afterScan sc rl0)") auto
    obtain rest rl2 fin where rest: "compressionThreadMain cfg scs rl1 = (rest, rl2, fin)"
      by (cases "compressionThreadMain cfg scs rl1") auto
    from False Cons.prems(1) ph rest have eqs: "es = events @ rest" "rl' = rl2" "finished = fin"
      by (simp_all add: rl0_def [symmetric] Let_def)
    from outputPhase_protocol [OF ph here] ph0
    have "aio_run (flagPhase rl) events = Some (flagPhase rl1)"
      by simp
    with Cons.IH [OF rest later] eqs show ?thesis
      by (simp add: aio_run_append)
  qed
qed

lemma aio_step_count:
  "aio_step ph e = Some ph' \<Longrightarrow>
     writesInFlight (e # es) = writesInFlight es + phaseCount ph' - phaseCount ph"
  by (cases ph; cases e) simp_all

lemma aio_run_count:
  "aio_run ph es = Some ph' \<Longrightarrow> writesInFlight es = phaseCount ph' - phaseCount ph"
proof (induction es arbitrary: ph)
  case Nil
  then show ?case by simp
next
  case (Cons e es)
  then obtain ph1 where st: "aio_step ph e = Some ph1" and run: "aio_run ph1 es = Some ph'"
    by (auto split: option.splits)
  from Cons.IH [OF run] aio_step_count [OF st, of es] show ?case
    by simp
qed

lemma aio_run_take:
  "aio_run ph es = Some ph' \<Longrightarrow> \<exists>ph1. aio_run ph (take k es) = Some ph1"
proof (induction es arbitrary: ph k)
  case Nil
  then show ?case by simp
next
  case (Cons e es)
  then obtain ph1 where st: "aio_step ph e = Some ph1" and run: "aio_run ph1 es = Some ph'"
    by (auto split: option.splits)
  show ?case
  proof (cases k)
    case 0
    then show ?thesis by simp
  next
    case (Suc j)
    with Cons.IH [OF run, of j] st show ?thesis by simp
  qed
qed

lemma phaseCount_range: "0 \<le> phaseCount ph \<and> phaseCount ph \<le> 1"
  by (cases ph) simp_all

text \<open>
  As long as no \<^verbatim>\<open>aio_suspend\<close> is interrupted with the write still in progress, the
  thread keeps to the protocol through any number of passes and through the code after
  the loop, and, started with no write outstanding, it has at every point of the sequence
  of events no more than one write in flight.
\<close>

lemma one_write_in_flight_unless_interrupted:
  assumes "compressionThreadMain cfg scs rl = (events, rl', finished)"
    and "\<forall>sc \<in> set scs. \<not> (aioSuspendInterrupted sc \<and> aioStillInProgress sc)"
  shows "aio_run (flagPhase rl) events = Some (flagPhase rl')"
    and "finished \<Longrightarrow> \<not> hasOutstandingOperation rl'"
    and "\<not> hasOutstandingOperation rl \<Longrightarrow>
           0 \<le> writesInFlight (take k events) \<and> writesInFlight (take k events) \<le> 1"
proof -
  note proto = compressionThreadMain_protocol [OF assms]
  from proto show "aio_run (flagPhase rl) events = Some (flagPhase rl')"
    by simp
  from proto show "finished \<Longrightarrow> \<not> hasOutstandingOperation rl'"
    by simp
  assume idle: "\<not> hasOutstandingOperation rl"
  from proto aio_run_take [of "flagPhase rl" events "flagPhase rl'" k]
  obtain ph where "aio_run (flagPhase rl) (take k events) = Some ph"
    by auto
  from aio_run_count [OF this] idle phaseCount_range [of ph]
  show "0 \<le> writesInFlight (take k events) \<and> writesInFlight (take k events) \<le> 1"
    by (simp add: flagPhase_def)
qed

lemma uninterrupted_passes:
  "compressionThreadMain plainConfig [firstScan, secondScan, thirdScan, exitScan] idleLogger =
     ([AioWrite 3 3 [1, 2, 3], MarkOutstanding, WaitWorkAdded, AioSuspend, WriteCompleted,
       AioReturn, ClearOutstanding, AioWrite 3 4 [4, 5, 6, 7], MarkOutstanding,
       WriteCompleted, AioReturn, ClearOutstanding],
      idleLogger\<lparr>compressionThreadShouldExit := True, aio_fildes := 3, aio_nbytes := 4,
        compressingBuffer := [1, 2, 3, 0], outputDoubleBuffer := [4, 5, 6, 7],
        totalBytesWritten := 7, numAioWritesCompleted := 2, numSleeps_outOfWork := 1\<rparr>,
      True)"
  by (simp add: plainConfig_def firstScan_def secondScan_def thirdScan_def exitScan_def
      idleLogger_def outputPhase_def awaitOutstanding_def waitForWrite_def sleepOnLowWork_def
      afterScan_def issueWrite_def padOutput_def finishIO_def drainAtExit_def Let_def)

text \<open>
  Claim C6 at an input on which the code breaks it. A write is outstanding and in
  progress, the encoder has filled the output buffer, and a signal interrupts
  \<^verbatim>\<open>aio_suspend\<close> while the write is still in progress. The thread only prints the failure
  of \<^verbatim>\<open>aio_suspend\<close>: it calls \<^verbatim>\<open>aio_return\<close> on the write that has not completed, clears
  \<open>hasOutstandingOperation\<close> and calls \<^verbatim>\<open>aio_write\<close> for the next buffer. The sequence of
  events is not one of the protocol, and after it two writes are in flight. (The other
  branch of the same statement tests \<^verbatim>\<open>aio_error\<close> again after its sleep, and the code
  after the loop polls \<^verbatim>\<open>aio_error\<close> until the write is no longer in progress.)
\<close>

theorem interrupted_suspend_two_writes_in_flight:
  "fst (compressionThreadMain plainConfig [firstScan, interruptedScan] idleLogger) =
     [AioWrite 3 3 [1, 2, 3], MarkOutstanding, AioSuspend, AioReturn, ClearOutstanding,
      AioWrite 3 4 [4, 5, 6, 7], MarkOutstanding] \<and>
   writesInFlight (fst (compressionThreadMain plainConfig [firstScan, interruptedScan] idleLogger))
     = 2 \<and>
   aio_run (flagPhase idleLogger)
     (fst (compressionThreadMain plainConfig [firstScan, interruptedScan] idleLogger)) = None \<and>
   \<not> hasOutstandingOperation idleLogger"
proof -
  have run: "fst (compressionThreadMain plainConfig [firstScan, interruptedScan] idleLogger) =
     [AioWrite 3 3 [1, 2, 3], MarkOutstanding, AioSuspend, AioReturn, ClearOutstanding,
      AioWrite 3 4 [4, 5, 6, 7], MarkOutstanding]"
    by (simp add: plainConfig_def firstScan_def interruptedScan_def
        idleLogger_def outputPhase_def awaitOutstanding_def waitForWrite_def sleepOnLowWork_def
        afterScan_def issueWrite_def padOutput_def finishIO_def drainAtExit_def Let_def)
  show ?thesis
    unfolding run by (simp add: flagPhase_def idleLogger_def)
qed

subsection \<open>Padding for direct I/O\<close>

lemma padOutput_direct:
  assumes "FILE_PARAMS cfg AND O_DIRECT cfg \<noteq> 0" and "0 \<le> b" and "b mod 512 \<noteq> 0"
  shows "padOutput cfg b rl =
     (b + (512 - b mod 512),
      rl\<lparr>compressingBuffer :=
            replicate (min (nat (512 - b mod 512)) (length (compressingBuffer rl))) 0 @
            drop (nat (512 - b mod 512)) (compressingBuffer rl),
         padBytesWritten := padBytesWritten rl + word_of_int (512 - b mod 512)\<rparr>)"
proof -
  from assms(2) have "b smod 512 = b mod 512"
    by (simp add: smod_int_alt_def sgn_if)
  with assms show ?thesis
    by (simp add: padOutput_def memset_def Let_def)
qed

text \<open>
  Claim C7 at the input of the specification's scenario: \<^verbatim>\<open>O_DIRECT\<close> is set and the encoder
  reports 513 bytes (here each \<open>170\<close>), followed in \<open>compressingBuffer\<close> by 511 bytes
  left from earlier (here each \<open>255\<close>). The write covers 1024 bytes and \<open>padBytesWritten\<close>
  grows by 511, as the claim says. The \<^verbatim>\<open>memset\<close> however starts at \<open>compressingBuffer\<close>
  and not behind the encoded bytes: in the bytes submitted, the first 511 encoded bytes are
  zero and the pad region, bytes 513 to 1023, is not.
\<close>

theorem padding_zeroes_the_encoded_bytes:
  "fst (issueWrite directConfig 513 loggerWith513) =
     [AioWrite 3 1024 (replicate 511 0 @ replicate 2 170 @ replicate 511 255), MarkOutstanding] \<and>
   aio_nbytes (snd (issueWrite directConfig 513 loggerWith513)) = 1024 \<and>
   padBytesWritten (snd (issueWrite directConfig 513 loggerWith513)) =
     padBytesWritten loggerWith513 + 511 \<and>
   take 513 (compressingBuffer loggerWith513) = replicate 513 170"
proof -
  have cfg: "FILE_PARAMS directConfig AND O_DIRECT directConfig \<noteq> 0"
    by (simp add: directConfig_def)
  have pad: "padOutput directConfig 513 loggerWith513 =
     (1024, loggerWith513\<lparr>compressingBuffer := replicate 511 0 @ replicate 2 170 @ replicate 511 255,
        padBytesWritten := padBytesWritten loggerWith513 + 511\<rparr>)"
    using padOutput_direct [OF cfg, of 513 loggerWith513]
    by (simp add: loggerWith513_def)
  show ?thesis
    by (simp add: issueWrite_def pad Let_def) (simp add: loggerWith513_def idleLogger_def)
qed

section \<open>Properties of setLogFile\<close>

text \<open>
  Claim C8. When the path exists and is not readable and writable, or when opening it
  fails, \<^verbatim>\<open>setLogFile\<close> throws \<^verbatim>\<open>std::ios_base::failure\<close>, takes none of the steps of the
  handoff (no sync, the worker is not stopped) and leaves the coordinator as it was: the
  old \<open>outputFd\<close>, the exit flag and \<open>nextInvocationIndexToBePersisted\<close> included.
\<close>

theorem setLogFile_failure_leaves_state:
  assumes "(access os filename F_OK = 0 \<and> access os filename (R_OK OR W_OK) \<noteq> 0) \<or>
           open_file os filename (FILE_PARAMS cfg) 438 < 0"
  shows "\<exists>msg. setLogFile cfg os filename rl = (Some (ios_base_failure msg), [], rl)"
  using assms
  by (auto simp: setLogFile_def setLogFile_internal_def Let_def)

theorem setLogFile_failure_leaves_state_witness:
  "access unwritableOS ''/var/log/app.clog'' F_OK = 0 \<and>
   access unwritableOS ''/var/log/app.clog'' (R_OK OR W_OK) \<noteq> 0 \<and>
   setLogFile plainConfig unwritableOS ''/var/log/app.clog'' idleLogger =
     (Some (ios_base_failure ''Unable to read/write from new log file: /var/log/app.clog''),
      [], idleLogger) \<and>
   open_file missingDirOS ''/nodir/app.clog'' (FILE_PARAMS plainConfig) 438 < 0 \<and>
   setLogFile plainConfig missingDirOS ''/nodir/app.clog'' idleLogger =
     (Some (ios_base_failure
        (''Unable to open file new log file: '' @ [CHR 0x27] @ ''/nodir/app.clog'' @ [CHR 0x27] @
         '': No such file or directory'')),
      [], idleLogger)"
  using setLogFile_failure_leaves_state [of unwritableOS "''/var/log/app.clog''" plainConfig idleLogger]
    setLogFile_failure_leaves_state [of missingDirOS "''/nodir/app.clog''" plainConfig idleLogger]
  by (simp add: setLogFile_def setLogFile_internal_def unwritableOS_def missingDirOS_def
      F_OK_def R_OK_def W_OK_def Let_def)



end
